theory Spec2Isabelle
  imports Main
begin

section \<open>Data model\<close>

text \<open>
  Python \<open>bytes\<close> are lists of 8-bit characters; Python \<open>str\<close> values are lists of
  Unicode code points. Language tags and grammar node types are short ASCII names and
  are kept as \<open>string\<close>.
\<close>

type_synonym bytes = "char list"
type_synonym str = "nat list"

definition ustr :: "string \<Rightarrow> str" where
  "ustr s = map of_char s"

text \<open>Python slicing \<open>s[a:b]\<close> for non-negative bounds.\<close>

definition slice :: "'a list \<Rightarrow> nat \<Rightarrow> nat \<Rightarrow> 'a list" where
  "slice s a b = take (b - a) (drop a s)"

text \<open>\<open>bytes.startswith\<close> with one prefix, and with a tuple of prefixes.\<close>

definition startswith :: "'a list \<Rightarrow> 'a list \<Rightarrow> bool" where
  "startswith s p = (take (length p) s = p)"

definition startswith_any :: "'a list \<Rightarrow> 'a list list \<Rightarrow> bool" where
  "startswith_any s ps = list_ex (startswith s) ps"

text \<open>Python's \<open>sub in s\<close> on sequences of characters.\<close>

fun contains :: "'a list \<Rightarrow> 'a list \<Rightarrow> bool" where
  "contains sub [] = (sub = [])"
| "contains sub (c # cs) = (startswith (c # cs) sub \<or> contains sub cs)"

text \<open>
  The exceptions the modelled code can raise. \<open>KeyError\<close> is what a failed dictionary
  subscript raises, \<open>AttributeError\<close> what an attribute read on \<open>None\<close> raises.
\<close>

datatype error =
    ParseLangNotSupportError string
  | KeyError string
  | AttributeError
  | NotImplementedError
  | UnicodeEncodeError
  | UnicodeDecodeError

text \<open>
  A syntax node of the parse tree: its type tag, its byte range and its children, each
  child with the field name (if any) under which the parent holds it. The text of a
  node is the slice of the source buffer at its byte range. The parent back-reference
  of the source is not stored: the traversals below pass what they read of the
  parent down to the child.
\<close>

datatype node =
  Node (ntype: string) (start_byte: nat) (end_byte: nat)
       (children: "(string option \<times> node) list")

definition node_text :: "bytes \<Rightarrow> node \<Rightarrow> bytes" where
  "node_text src n = slice src (start_byte n) (end_byte n)"

text \<open>All nodes of a subtree in document order (the node itself first).\<close>

fun preorder :: "node \<Rightarrow> node list"
  and preorder_list :: "(string option \<times> node) list \<Rightarrow> node list" where
  "preorder (Node t s e cs) = Node t s e cs # preorder_list cs"
| "preorder_list [] = []"
| "preorder_list (c # cs) = preorder (snd c) @ preorder_list cs"

section \<open>Grammar registry\<close>

datatype grammar = tree_sitter_c | tree_sitter_cpp | tree_sitter_java

definition lang_mapping :: "(string \<times> grammar) list" where
  "lang_mapping =
     [(''C'', tree_sitter_c), (''C++'', tree_sitter_cpp), (''Java'', tree_sitter_java)]"

text \<open>\<open>lang_mapping[lang]\<close>: a dictionary subscript, which raises \<open>KeyError\<close>.\<close>

definition get_language :: "string \<Rightarrow> error + grammar" where
  "get_language lang =
     (case map_of lang_mapping lang of
        None \<Rightarrow> Inl (KeyError lang)
      | Some g \<Rightarrow> Inr g)"

datatype parser = Parser (language: grammar)

definition get_parser :: "string \<Rightarrow> error + parser" where
  "get_parser lang =
     (case get_language lang of Inl e \<Rightarrow> Inl e | Inr g \<Rightarrow> Inr (Parser g))"

text \<open>
  The parser itself is the tree-sitter library; it is a parameter \<open>ts\<close> that maps a
  grammar and a byte buffer to the root node.
\<close>

definition parse_ast :: "(grammar \<Rightarrow> bytes \<Rightarrow> node) \<Rightarrow> bytes \<Rightarrow> string \<Rightarrow> error + node" where
  "parse_ast ts s lang =
     (case get_parser lang of
        Inl e \<Rightarrow> Inl e
      | Inr p \<Rightarrow> Inr (ts (language p) s))"

section \<open>Function locator\<close>

text \<open>
  The function-definition queries are single-node patterns; each is kept as the list
  of node types it captures. A capture query returns every matching node of the
  subtree in document order.
\<close>

definition FUNCTION_DEFINITION_CAPTURES :: "(string \<times> string list) list" where
  "FUNCTION_DEFINITION_CAPTURES =
     [(''C'', [''function_definition'']),
      (''C++'', [''function_definition'']),
      (''Java'', [''method_declaration'', ''constructor_declaration''])]"

definition captures :: "string list \<Rightarrow> node \<Rightarrow> node list" where
  "captures types n = filter (\<lambda>x. ntype x \<in> set types) (preorder n)"

definition inside :: "node \<Rightarrow> node \<Rightarrow> bool" where
  "inside n x = (start_byte n > start_byte x \<and> end_byte n < end_byte x)"

definition bad_leading :: "bytes list" where
  "bad_leading =
     [''else'', ''if'', ''for'', ''while'', ''do'', ''switch'', ''case'', ''default'']"

definition capture_function_definitions :: "bytes \<Rightarrow> node \<Rightarrow> string \<Rightarrow> error + node list" where
  "capture_function_definitions src n lang =
     (case map_of FUNCTION_DEFINITION_CAPTURES lang of
        None \<Rightarrow> Inl (ParseLangNotSupportError lang)
      | Some capture \<Rightarrow>
          (let node = captures capture n;
               node1 = filter (\<lambda>n. \<not> list_ex (\<lambda>x. inside n x) node) node;
               node2 = filter (\<lambda>n. \<not> startswith_any (node_text src n) bad_leading) node1
           in Inr node2))"

text \<open>
  Scope resolution dispatches on the tag; the two ancestor walks are parameters, the
  dispatch is the source's.
\<close>

definition function_scope ::
  "(node \<Rightarrow> string \<Rightarrow> error + str list) \<Rightarrow> (node \<Rightarrow> string \<Rightarrow> error + str list) \<Rightarrow>
   node \<Rightarrow> string \<Rightarrow> error + str list" where
  "function_scope function_scope_cpp function_scope_java n lang =
     (if lang = ''C'' then Inr []
      else if lang = ''C++'' then function_scope_cpp n lang
      else if lang = ''Java'' then function_scope_java n lang
      else Inl (ParseLangNotSupportError lang))"

text \<open>
  Well-formed trees, as the parser builds them: a node's range is not reversed, its
  children lie inside it, and siblings follow one another without overlap.
\<close>

fun wf_node :: "node \<Rightarrow> bool"
  and wf_children :: "nat \<Rightarrow> nat \<Rightarrow> (string option \<times> node) list \<Rightarrow> bool" where
  "wf_node (Node t s e cs) = (s \<le> e \<and> wf_children s e cs)"
| "wf_children lo hi [] = (lo \<le> hi)"
| "wf_children lo hi (c # cs) =
     (lo \<le> start_byte (snd c) \<and> wf_node (snd c) \<and> wf_children (end_byte (snd c)) hi cs)"

definition descendants :: "node \<Rightarrow> node list" where
  "descendants n = preorder_list (children n)"

definition doc_order :: "node \<Rightarrow> node \<Rightarrow> bool" where
  "doc_order a b = (end_byte a \<le> start_byte b \<or> b \<in> set (descendants a))"

subsection \<open>Sample trees for the function locator\<close>

text \<open>
  The truncated C source \<open>void f() { void g() { }\<close>: the closing brace of \<open>f\<close> is absent,
  so the body of \<open>f\<close> ends where \<open>g\<close> ends (the parser supplies a zero-width brace).
\<close>

definition c1_src :: bytes where
  "c1_src = ''void f() { void g() { }''"

definition c1_inner :: node where
  "c1_inner =
     Node ''function_definition'' 11 23
       [(Some ''type'', Node ''primitive_type'' 11 15 []),
        (Some ''declarator'', Node ''function_declarator'' 16 19
           [(Some ''declarator'', Node ''identifier'' 16 17 []),
            (Some ''parameters'', Node ''parameter_list'' 17 19
               [(None, Node ''('' 17 18 []), (None, Node '')'' 18 19 [])])]),
        (Some ''body'', Node ''compound_statement'' 20 23
           [(None, Node ''{'' 20 21 []), (None, Node ''}'' 22 23 [])])]"

definition c1_outer :: node where
  "c1_outer =
     Node ''function_definition'' 0 23
       [(Some ''type'', Node ''primitive_type'' 0 4 []),
        (Some ''declarator'', Node ''function_declarator'' 5 8
           [(Some ''declarator'', Node ''identifier'' 5 6 []),
            (Some ''parameters'', Node ''parameter_list'' 6 8
               [(None, Node ''('' 6 7 []), (None, Node '')'' 7 8 [])])]),
        (Some ''body'', Node ''compound_statement'' 9 23
           [(None, Node ''{'' 9 10 []), (None, c1_inner), (None, Node ''}'' 23 23 [])])]"

definition c1_tree :: node where
  "c1_tree = Node ''translation_unit'' 0 23 [(None, c1_outer)]"

text \<open>The complete source \<open>void f() { void g() { } }\<close>.\<close>

definition c1w_src :: bytes where
  "c1w_src = ''void f() { void g() { } }''"

definition c1w_outer :: node where
  "c1w_outer =
     Node ''function_definition'' 0 25
       [(Some ''type'', Node ''primitive_type'' 0 4 []),
        (Some ''declarator'', Node ''function_declarator'' 5 8
           [(Some ''declarator'', Node ''identifier'' 5 6 []),
            (Some ''parameters'', Node ''parameter_list'' 6 8
               [(None, Node ''('' 6 7 []), (None, Node '')'' 7 8 [])])]),
        (Some ''body'', Node ''compound_statement'' 9 25
           [(None, Node ''{'' 9 10 []), (None, c1_inner), (None, Node ''}'' 24 25 [])])]"

definition c1w_tree :: node where
  "c1w_tree = Node ''translation_unit'' 0 25 [(None, c1w_outer)]"

section \<open>Tree traversal\<close>

text \<open>
  What a node reads of its parent: the parent's type, whether the node is the child
  that \<open>parent.child_by_field_name("declarator")\<close> returns (the first child held under
  that field), and the type of the node at which the walk
  \<open>while node.parent and node.parent.child_by_field_name("declarator") == node\<close>
  stops when started at the parent. \<open>None\<close> is a node whose parent is \<open>None\<close>.
\<close>

type_synonym pinfo = "string \<times> bool \<times> string"

definition chain_root :: "pinfo option \<Rightarrow> node \<Rightarrow> string" where
  "chain_root p n =
     (case p of
        None \<Rightarrow> ntype n
      | Some (ptype, is_declarator, ptop) \<Rightarrow> if is_declarator then ptop else ntype n)"

text \<open>
  \<open>traverse\<close>: the depth-first cursor walk. A node is yielded when \<open>ret\<close> holds of it and
  its children are visited when \<open>descend\<close> holds of it; the cursor never leaves the
  subtree it was created on.
\<close>

fun traverse ::
    "(node \<Rightarrow> bool) \<Rightarrow> (node \<Rightarrow> bool) \<Rightarrow> pinfo option \<Rightarrow> node \<Rightarrow> (pinfo option \<times> node) list"
  and traverse_children ::
    "(node \<Rightarrow> bool) \<Rightarrow> (node \<Rightarrow> bool) \<Rightarrow> string \<Rightarrow> string \<Rightarrow> bool \<Rightarrow>
     (string option \<times> node) list \<Rightarrow> (pinfo option \<times> node) list" where
  "traverse descend ret p (Node t s e cs) =
     (if ret (Node t s e cs) then [(p, Node t s e cs)] else []) @
     (if descend (Node t s e cs)
      then traverse_children descend ret t (chain_root p (Node t s e cs)) False cs
      else [])"
| "traverse_children descend ret ptype ptop seen [] = []"
| "traverse_children descend ret ptype ptop seen (c # cs) =
     traverse descend ret (Some (ptype, fst c = Some ''declarator'' \<and> \<not> seen, ptop)) (snd c) @
     traverse_children descend ret ptype ptop (seen \<or> fst c = Some ''declarator'') cs"

section \<open>Abstraction engine\<close>

definition ABST_WITH_NUM :: int where "ABST_WITH_NUM = 1"
definition ABST_AS_TYPE :: int where "ABST_AS_TYPE = 2"
definition ABST_NON_SYS :: int where "ABST_NON_SYS = 4"

record policy =
  abstract_fname :: int
  abstract_lvar :: int
  abstract_fparam :: int
  abstract_label :: int
  abstract_gsym :: int
  abstract_field :: int
  abstract_type :: int
  abstract_literal :: int
  abstract_func_call :: int

text \<open>The default arguments of \<open>abstract_func_clike\<close>, and the policy that keeps everything.\<close>

definition default_policy :: policy where
  "default_policy =
     \<lparr>abstract_fname = ABST_AS_TYPE, abstract_lvar = ABST_WITH_NUM,
      abstract_fparam = ABST_WITH_NUM, abstract_label = ABST_AS_TYPE,
      abstract_gsym = ABST_WITH_NUM, abstract_field = 0, abstract_type = 0,
      abstract_literal = 0, abstract_func_call = 0\<rparr>"

definition keep_policy :: policy where
  "keep_policy =
     \<lparr>abstract_fname = 0, abstract_lvar = 0, abstract_fparam = 0, abstract_label = 0,
      abstract_gsym = 0, abstract_field = 0, abstract_type = 0, abstract_literal = 0,
      abstract_func_call = 0\<rparr>"

text \<open>Decimal rendering of a counter, as an f-string formats it.\<close>

definition digit :: "nat \<Rightarrow> char" where
  "digit d = ''0123456789'' ! d"

fun show_nat :: "nat \<Rightarrow> string" where
  "show_nat n = (if n < 10 then [digit n] else show_nat (n div 10) @ [digit (n mod 10)])"

declare show_nat.simps [simp del]

record abst_state =
  lvar_map :: "bytes \<rightharpoonup> bytes"
  symbol_map :: "bytes \<rightharpoonup> bytes"
  label_map :: "bytes \<rightharpoonup> bytes"
  field_map :: "bytes \<rightharpoonup> bytes"
  vtype_map :: "bytes \<rightharpoonup> bytes"
  counts :: "string \<Rightarrow> nat"
  outputs :: "bytes list"

definition init_state :: abst_state where
  "init_state =
     \<lparr>lvar_map = Map.empty, symbol_map = Map.empty, label_map = Map.empty,
      field_map = Map.empty, vtype_map = Map.empty, counts = (\<lambda>_. 0), outputs = []\<rparr>"

definition alloc_number :: "string \<Rightarrow> abst_state \<Rightarrow> bytes \<times> abst_state" where
  "alloc_number elm_type st =
     (elm_type @ show_nat (counts st elm_type),
      st\<lparr>counts := (counts st)(elm_type := counts st elm_type + 1)\<rparr>)"

definition emit :: "abst_state \<Rightarrow> bytes \<Rightarrow> abst_state" where
  "emit st x = st\<lparr>outputs := outputs st @ [x]\<rparr>"

definition atomic_types :: "string list" where
  "atomic_types =
     [''concatenated_string'', ''string_literal'', ''char_literal'', ''number_literal'',
      ''sized_type_specifier'']"

definition is_leaf :: "node \<Rightarrow> bool" where
  "is_leaf n = (children n = [] \<or> ntype n \<in> set atomic_types)"

definition is_inner :: "node \<Rightarrow> bool" where
  "is_inner n = (\<not> is_leaf n)"

definition dropped_types :: "string list" where
  "dropped_types =
     [''static'', ''const'', ''volatile'', ''inline'', ''extern'', ''register'', ''typedef'']"

text \<open>
  One iteration of the loop over the leaf-like nodes. The conditions of the
  \<open>if\<close>/\<open>elif\<close> chain of the source, in its order, select the branch (\<open>classify\<close>); the
  bodies of the branches follow, one definition each.
\<close>

datatype branch =
    Fname | Fparam | Lvar | Field | Label_def | Goto_label | Vtype | Literal | Func_call
  | Ident | Dropped | Other

definition classify :: "pinfo \<Rightarrow> string \<Rightarrow> branch" where
  "classify p t =
     (case p of
        (ptype, is_declarator, ptop) \<Rightarrow>
          if ptype = ''function_declarator'' \<and> is_declarator then Fname
          else if t = ''identifier'' \<and>
                  (if is_declarator then ptop else t) = ''parameter_declaration'' then Fparam
          else if t = ''identifier'' \<and>
                  (if is_declarator then ptop else t) = ''declaration'' then Lvar
          else if t = ''field_identifier'' then Field
          else if ptype = ''labeled_statement'' \<and> t = ''statement_identifier'' then Label_def
          else if ptype = ''goto_statement'' \<and> t = ''statement_identifier'' then Goto_label
          else if t \<in> {''sized_type_specifier'', ''primitive_type'', ''type_identifier''}
            then Vtype
          else if t \<in> {''concatenated_string'', ''string_literal'', ''char_literal'',
                        ''number_literal''} then Literal
          else if ptype = ''call_expression'' \<and> t = ''identifier'' then Func_call
          else if t = ''identifier'' then Ident
          else if contains ''comment'' t \<or> t \<in> set dropped_types then Dropped
          else Other)"

text \<open>\<open>m[x] = alloc_number(tag)\<close> followed by \<open>output.append(m[x])\<close>, for the map \<open>upd\<close> writes.\<close>

definition alloc_emit ::
  "string \<Rightarrow> (bytes \<Rightarrow> abst_state \<Rightarrow> abst_state) \<Rightarrow> abst_state \<Rightarrow> abst_state" where
  "alloc_emit tag upd st = (case alloc_number tag st of (tok, st1) \<Rightarrow> emit (upd tok st1) tok)"

definition on_fname :: "policy \<Rightarrow> abst_state \<Rightarrow> bytes \<Rightarrow> abst_state" where
  "on_fname pol st x = (if abstract_fname pol = 0 then emit st x else emit st ''FNAME'')"

definition on_fparam :: "policy \<Rightarrow> abst_state \<Rightarrow> bytes \<Rightarrow> abst_state" where
  "on_fparam pol st x =
     (if abstract_fparam pol = 0 then emit st x
      else if abstract_fparam pol = ABST_WITH_NUM then
        alloc_emit ''FPARAM'' (\<lambda>tok s. s\<lparr>lvar_map := (lvar_map s)(x \<mapsto> tok)\<rparr>) st
      else emit (st\<lparr>lvar_map := (lvar_map st)(x \<mapsto> ''FPARAM'')\<rparr>) ''FPARAM'')"

definition on_lvar :: "policy \<Rightarrow> abst_state \<Rightarrow> bytes \<Rightarrow> abst_state" where
  "on_lvar pol st x =
     (if abstract_lvar pol = 0 then emit st x
      else if abstract_lvar pol = ABST_WITH_NUM then
        alloc_emit ''LVAR'' (\<lambda>tok s. s\<lparr>lvar_map := (lvar_map s)(x \<mapsto> tok)\<rparr>) st
      else emit (st\<lparr>lvar_map := (lvar_map st)(x \<mapsto> ''LVAR'')\<rparr>) ''LVAR'')"

definition on_field :: "policy \<Rightarrow> abst_state \<Rightarrow> bytes \<Rightarrow> abst_state" where
  "on_field pol st x =
     (if abstract_field pol = 0 then emit st x
      else if abstract_lvar pol = ABST_WITH_NUM then
        (case field_map st x of
           Some tok \<Rightarrow> emit st tok
         | None \<Rightarrow>
             alloc_emit ''FIELD'' (\<lambda>tok s. s\<lparr>field_map := (field_map s)(x \<mapsto> tok)\<rparr>) st)
      else emit (st\<lparr>field_map := (field_map st)(x \<mapsto> ''FIELD'')\<rparr>) ''FIELD'')"

definition on_label_def :: "policy \<Rightarrow> abst_state \<Rightarrow> bytes \<Rightarrow> abst_state" where
  "on_label_def pol st x =
     (if abstract_label pol = 0 then emit st x
      else if abstract_lvar pol = ABST_WITH_NUM then
        alloc_emit ''LABEL'' (\<lambda>tok s. s\<lparr>label_map := (label_map s)(x \<mapsto> tok)\<rparr>) st
      else emit st ''LABEL'')"

definition on_goto_label :: "policy \<Rightarrow> abst_state \<Rightarrow> bytes \<Rightarrow> abst_state" where
  "on_goto_label pol st x =
     (if abstract_label pol = 0 then st
      else if abstract_lvar pol = ABST_WITH_NUM then
        (case label_map st x of
           Some tok \<Rightarrow> emit st tok
         | None \<Rightarrow>
             alloc_emit ''LABEL'' (\<lambda>tok s. s\<lparr>label_map := (label_map s)(x \<mapsto> tok)\<rparr>) st)
      else emit st ''LABEL'')"

definition on_vtype :: "policy \<Rightarrow> abst_state \<Rightarrow> bytes \<Rightarrow> abst_state" where
  "on_vtype pol st x =
     (if abstract_type pol = 0 then emit st x
      else if abstract_type pol = ABST_WITH_NUM then
        (case vtype_map st x of
           Some tok \<Rightarrow> emit st tok
         | None \<Rightarrow>
             alloc_emit ''VTYPE'' (\<lambda>tok s. s\<lparr>vtype_map := (vtype_map s)(x \<mapsto> tok)\<rparr>) st)
      else emit st ''VTYPE'')"

definition on_literal :: "policy \<Rightarrow> abst_state \<Rightarrow> string \<Rightarrow> bytes \<Rightarrow> abst_state" where
  "on_literal pol st t x =
     (if abstract_literal pol = 0 then emit st x
      else emit st
             (if t \<in> {''concatenated_string'', ''string_literal'', ''char_literal''}
              then ''STR'' else ''NUM''))"

definition on_func_call :: "policy \<Rightarrow> bytes set \<Rightarrow> abst_state \<Rightarrow> bytes \<Rightarrow> error + abst_state" where
  "on_func_call pol SYS_FUNC st x =
     (if abstract_func_call pol = 0 then Inr (emit st x)
      else if and (abstract_func_call pol) ABST_WITH_NUM \<noteq> 0 then Inl NotImplementedError
      else if and (abstract_func_call pol) ABST_NON_SYS \<noteq> 0 then
        Inr (emit st (if x \<in> SYS_FUNC then x else ''FCALL''))
      else Inr (emit st ''FCALL''))"

definition on_ident :: "policy \<Rightarrow> abst_state \<Rightarrow> bytes \<Rightarrow> abst_state" where
  "on_ident pol st x =
     (case lvar_map st x of
        Some tok \<Rightarrow> emit st tok
      | None \<Rightarrow>
          if abstract_gsym pol \<noteq> 0 then
            (if abstract_gsym pol = ABST_WITH_NUM then
               (case symbol_map st x of
                  Some tok \<Rightarrow> emit st tok
                | None \<Rightarrow>
                    alloc_emit ''GSYM''
                      (\<lambda>tok s. s\<lparr>symbol_map := (symbol_map s)(x \<mapsto> tok)\<rparr>) st)
             else emit st ''GSYM'')
          else emit st x)"

text \<open>
  Reading \<open>node.parent.type\<close> of a node without parent raises \<open>AttributeError\<close>. The set
  \<open>SYS_FUNC\<close> is read from two data files and is a parameter.
\<close>

definition abstract_node ::
  "policy \<Rightarrow> bytes set \<Rightarrow> bytes \<Rightarrow> abst_state \<Rightarrow> pinfo option \<times> node \<Rightarrow> error + abst_state" where
  "abstract_node pol SYS_FUNC src st pn =
     (case fst pn of
        None \<Rightarrow> Inl AttributeError
      | Some p \<Rightarrow>
          (let t = ntype (snd pn); x = node_text src (snd pn)
           in case classify p t of
                Fname \<Rightarrow> Inr (on_fname pol st x)
              | Fparam \<Rightarrow> Inr (on_fparam pol st x)
              | Lvar \<Rightarrow> Inr (on_lvar pol st x)
              | Field \<Rightarrow> Inr (on_field pol st x)
              | Label_def \<Rightarrow> Inr (on_label_def pol st x)
              | Goto_label \<Rightarrow> Inr (on_goto_label pol st x)
              | Vtype \<Rightarrow> Inr (on_vtype pol st x)
              | Literal \<Rightarrow> Inr (on_literal pol st t x)
              | Func_call \<Rightarrow> on_func_call pol SYS_FUNC st x
              | Ident \<Rightarrow> Inr (on_ident pol st x)
              | Dropped \<Rightarrow> Inr st
              | Other \<Rightarrow> Inr (emit st x)))"

fun abstract_loop ::
  "policy \<Rightarrow> bytes set \<Rightarrow> bytes \<Rightarrow> abst_state \<Rightarrow> (pinfo option \<times> node) list \<Rightarrow> error + abst_state" where
  "abstract_loop pol SYS_FUNC src st [] = Inr st"
| "abstract_loop pol SYS_FUNC src st (pn # rest) =
     (case abstract_node pol SYS_FUNC src st pn of
        Inl e \<Rightarrow> Inl e
      | Inr st' \<Rightarrow> abstract_loop pol SYS_FUNC src st' rest)"

text \<open>
  \<open>abstract_func_clike\<close> on a node \<open>func\<close> of a tree over the buffer \<open>src\<close>; \<open>up\<close> is what
  \<open>func\<close> reads of its own parent.
\<close>

definition abstract_func_clike ::
  "policy \<Rightarrow> bytes set \<Rightarrow> bytes \<Rightarrow> pinfo option \<Rightarrow> node \<Rightarrow> error + bytes list" where
  "abstract_func_clike pol SYS_FUNC src up func =
     (case abstract_loop pol SYS_FUNC src init_state (traverse is_inner is_leaf up func) of
        Inl e \<Rightarrow> Inl e
      | Inr st \<Rightarrow> Inr (outputs st))"

text \<open>The same on a byte buffer, which is parsed first; the root has no parent.\<close>

definition abstract_func_clike_bytes ::
  "(grammar \<Rightarrow> bytes \<Rightarrow> node) \<Rightarrow> policy \<Rightarrow> bytes set \<Rightarrow> bytes \<Rightarrow> string \<Rightarrow> error + bytes list" where
  "abstract_func_clike_bytes ts pol SYS_FUNC func lang =
     (case parse_ast ts func lang of
        Inl e \<Rightarrow> Inl e
      | Inr root \<Rightarrow> abstract_func_clike pol SYS_FUNC func None root)"

section \<open>Text decoding\<close>

text \<open>
  \<open>bytes.decode("utf-8", errors=...)\<close> and \<open>str.encode("utf-8")\<close> of the Python runtime,
  on byte values. An invalid or truncated sequence is reported with the range of bytes
  the decoder gives up on: one byte for an invalid start byte, the bytes read so far
  for an invalid continuation byte, the rest of the input for a truncated sequence.
  Under \<open>Strict\<close> the report is raised; under \<open>Ignore\<close> the range is skipped and decoding
  resumes behind it.
\<close>

datatype errors_mode = Strict | Ignore

definition is_cont :: "nat \<Rightarrow> bool" where
  "is_cont b = (128 \<le> b \<and> b < 192)"

definition on_invalid :: "errors_mode \<Rightarrow> error + str \<Rightarrow> error + str" where
  "on_invalid mode resume = (case mode of Strict \<Rightarrow> Inl UnicodeDecodeError | Ignore \<Rightarrow> resume)"

definition decoded :: "nat \<Rightarrow> error + str \<Rightarrow> error + str" where
  "decoded cp rest = (case rest of Inl e \<Rightarrow> Inl e | Inr s \<Rightarrow> Inr (cp # s))"

text \<open>
  One decoding attempt at the byte \<open>c\<close> followed by \<open>r\<close>: the code point read, or \<open>None\<close>
  for an invalid sequence, and the number of bytes it covers.
\<close>

definition utf8_step :: "nat \<Rightarrow> nat list \<Rightarrow> nat option \<times> nat" where
  "utf8_step c r =
     (if c < 128 then (Some c, 1)
      else if c < 194 then (None, 1)
      else if c < 224 then
        (case r of
           [] \<Rightarrow> (None, 1)
         | c2 # r2 \<Rightarrow>
             if is_cont c2 then (Some (c * 64 + c2 - (192 * 64 + 128)), 2) else (None, 1))
      else if c < 240 then
        (case r of
           [] \<Rightarrow> (None, 1)
         | c2 # r2 \<Rightarrow>
             if \<not> is_cont c2 \<or> (if c2 < 160 then c = 224 else c = 237) then (None, 1)
             else
               (case r2 of
                  [] \<Rightarrow> (None, 2)
                | c3 # r3 \<Rightarrow>
                    if is_cont c3
                    then (Some (c * 4096 + c2 * 64 + c3 - (224 * 4096 + 128 * 64 + 128)), 3)
                    else (None, 2)))
      else if c < 245 then
        (case r of
           [] \<Rightarrow> (None, 1)
         | c2 # r2 \<Rightarrow>
             if \<not> is_cont c2 \<or> (if c2 < 144 then c = 240 else c = 244) then (None, 1)
             else
               (case r2 of
                  [] \<Rightarrow> (None, 2)
                | c3 # r3 \<Rightarrow>
                    if \<not> is_cont c3 then (None, 2)
                    else
                      (case r3 of
                         [] \<Rightarrow> (None, 3)
                       | c4 # r4 \<Rightarrow>
                           if is_cont c4
                           then (Some (c * 262144 + c2 * 4096 + c3 * 64 + c4 -
                                       (240 * 262144 + 128 * 4096 + 128 * 64 + 128)), 4)
                           else (None, 3))))
      else (None, 1))"

lemma utf8_step_pos: "utf8_step c r = (x, n) \<Longrightarrow> 0 < n"
  by (simp add: utf8_step_def split: if_splits list.splits)

function utf8_decode :: "errors_mode \<Rightarrow> nat list \<Rightarrow> error + str" where
  "utf8_decode mode [] = Inr []"
| "utf8_decode mode (c # r) =
     (case utf8_step c r of
        (Some cp, n) \<Rightarrow> decoded cp (utf8_decode mode (drop n (c # r)))
      | (None, n) \<Rightarrow> on_invalid mode (utf8_decode mode (drop n (c # r))))"
  by pat_completeness auto
termination
  by (relation "measure (\<lambda>(mode, bs). length bs)") (auto dest: utf8_step_pos[OF sym])

definition decode :: "errors_mode \<Rightarrow> bytes \<Rightarrow> error + str" where
  "decode mode b = utf8_decode mode (map of_char b)"

text \<open>Encoding is strict: a surrogate code point cannot be encoded.\<close>

definition encode_cp :: "nat \<Rightarrow> nat list option" where
  "encode_cp cp =
     (if cp < 128 then Some [cp]
      else if cp < 2048 then Some [192 + cp div 64, 128 + cp mod 64]
      else if 55296 \<le> cp \<and> cp < 57344 then None
      else if cp < 65536 then
        Some [224 + cp div 4096, 128 + (cp div 64) mod 64, 128 + cp mod 64]
      else
        Some [240 + cp div 262144, 128 + (cp div 4096) mod 64, 128 + (cp div 64) mod 64,
              128 + cp mod 64])"

fun encode :: "str \<Rightarrow> error + bytes" where
  "encode [] = Inr []"
| "encode (cp # s) =
     (case encode_cp cp of
        None \<Rightarrow> Inl UnicodeEncodeError
      | Some bs \<Rightarrow>
          (case encode s of Inl e \<Rightarrow> Inl e | Inr rest \<Rightarrow> Inr (map char_of bs @ rest)))"

section \<open>Comment stripper\<close>

subsection \<open>Regex strategy\<close>

text \<open>
  The pattern \<open>RX_CLIKE_COMMENT\<close> is
  \<^verbatim>\<open>//.*?$|/\*.*?\*/|'(?:\\.|[^\\'])*'|"(?:\\.|[^\\"])*"\<close> with the flags DOTALL and
  MULTILINE. Each alternative is deterministic, so a match attempt at a position is a
  function of the remaining text:
  \<^item> \<open>//.*?$\<close> runs lazily to the first position before a newline, or to the end;
  \<^item> \<open>/\*.*?\*/\<close> runs lazily to the first \<open>*/\<close> behind the opening \<open>/*\<close>;
  \<^item> a quoted string consumes escape pairs (a backslash and any character) and
    characters other than the backslash and its quote, up to the first quote it meets.
\<close>

definition NL :: nat where "NL = 10"
definition SP :: nat where "SP = 32"
definition DQ :: nat where "DQ = 34"
definition SQ :: nat where "SQ = 39"
definition STAR :: nat where "STAR = 42"
definition SLASH :: nat where "SLASH = 47"
definition BSL :: nat where "BSL = 92"

text \<open>Number of characters before the first \<open>*/\<close>, if there is one.\<close>

fun find_close :: "str \<Rightarrow> nat option" where
  "find_close [] = None"
| "find_close [c] = None"
| "find_close (c # d # r) =
     (if c = STAR \<and> d = SLASH then Some 0 else map_option Suc (find_close (d # r)))"

text \<open>
  Number of characters of a string body up to and including the closing quote \<open>q\<close>;
  \<open>None\<close> when the text ends first.
\<close>

fun str_end :: "nat \<Rightarrow> str \<Rightarrow> nat option" where
  "str_end q [] = None"
| "str_end q [c] = (if c = q then Some 1 else None)"
| "str_end q (c # d # r) =
     (if c = BSL then map_option (\<lambda>n. n + 2) (str_end q r)
      else if c = q then Some 1
      else map_option Suc (str_end q (d # r)))"

text \<open>Length of the match of the pattern at the start of the text, if it matches there.\<close>

definition match_at :: "str \<Rightarrow> nat option" where
  "match_at s =
     (case s of
        [] \<Rightarrow> None
      | c # r \<Rightarrow>
          if c = SLASH then
            (case r of
               [] \<Rightarrow> None
             | d # r' \<Rightarrow>
                 if d = SLASH then Some (2 + length (takeWhile (\<lambda>x. x \<noteq> NL) r'))
                 else if d = STAR then map_option (\<lambda>n. n + 4) (find_close r')
                 else None)
          else if c = SQ \<or> c = DQ then map_option Suc (str_end c r)
          else None)"

definition replacer :: "str \<Rightarrow> str" where
  "replacer s = (if startswith s [SLASH] then [SP] else s)"

lemma match_at_pos: "match_at s = Some n \<Longrightarrow> 0 < n"
  by (auto simp: match_at_def split: list.splits if_splits)

text \<open>\<open>re.sub\<close>: leftmost matches, left to right, each replaced by \<open>replacer\<close>.\<close>

function remove_comments_regex :: "str \<Rightarrow> str" where
  "remove_comments_regex [] = []"
| "remove_comments_regex (c # r) =
     (case match_at (c # r) of
        Some n \<Rightarrow> replacer (take n (c # r)) @ remove_comments_regex (drop n (c # r))
      | None \<Rightarrow> c # remove_comments_regex r)"
  by pat_completeness auto
termination
  by (relation "measure length") (auto dest: match_at_pos)

subsection \<open>Tree-accurate strategy\<close>

definition comment_types :: "string list" where
  "comment_types = [''comment'', ''line_comment'', ''block_comment'']"

definition comment_spans :: "node \<Rightarrow> (nat \<times> nat) list" where
  "comment_spans root =
     map (\<lambda>n. (start_byte n, end_byte n))
       (filter (\<lambda>n. ntype n \<in> set comment_types \<and> start_byte n < end_byte n) (preorder root))"

definition LF :: char where "LF = CHR 0x0A"

fun rebuild :: "bytes \<Rightarrow> bytes \<Rightarrow> nat \<Rightarrow> (nat \<times> nat) list \<Rightarrow> bytes" where
  "rebuild code okcode last_end [] = okcode @ drop last_end code"
| "rebuild code okcode last_end (c # cs) =
     rebuild code
       (okcode @ slice code last_end (fst c) @
        replicate (count_list (slice code (fst c) (snd c)) LF) LF)
       (snd c) cs"

definition remove_comments_ast ::
  "(grammar \<Rightarrow> bytes \<Rightarrow> node) \<Rightarrow> bytes \<Rightarrow> string \<Rightarrow> error + bytes" where
  "remove_comments_ast ts code lang =
     (case parse_ast ts code lang of
        Inl e \<Rightarrow> Inl e
      | Inr root \<Rightarrow> Inr (rebuild code [] 0 (comment_spans root)))"

text \<open>The dispatcher (its timeout wrapper set aside).\<close>

definition remove_comments ::
  "(grammar \<Rightarrow> bytes \<Rightarrow> node) \<Rightarrow> str \<Rightarrow> string \<Rightarrow> error + str" where
  "remove_comments ts code lang =
     (if lang \<in> {''C'', ''C++'', ''Java''} then Inr (remove_comments_regex code)
      else
        (case encode code of
           Inl e \<Rightarrow> Inl e
         | Inr b \<Rightarrow>
             (case remove_comments_ast ts b lang of
                Inl e \<Rightarrow> Inl e
              | Inr b' \<Rightarrow> decode Strict b')))"

section \<open>Function model\<close>

text \<open>
  Python's \<open>\s\<close> on \<open>str\<close>: the code points for which \<open>str.isspace\<close> holds.
\<close>

definition is_space :: "nat \<Rightarrow> bool" where
  "is_space c =
     ((9 \<le> c \<and> c \<le> 13) \<or> (28 \<le> c \<and> c \<le> 32) \<or> c = 133 \<or> c = 160 \<or> c = 5760 \<or>
      (8192 \<le> c \<and> c \<le> 8202) \<or> c = 8232 \<or> c = 8233 \<or> c = 8239 \<or> c = 8287 \<or> c = 12288)"

text \<open>\<open>re.sub(r"\s+", "", s)\<close>: every maximal run of whitespace is replaced by nothing.\<close>

function sub_spaces :: "str \<Rightarrow> str" where
  "sub_spaces [] = []"
| "sub_spaces (c # r) =
     (if is_space c then sub_spaces (dropWhile is_space r) else c # sub_spaces r)"
  by pat_completeness auto
termination
  by (relation "measure length") (auto simp: less_Suc_eq_le length_dropWhile_le)

text \<open>
  A function record (\<open>Func\<close>), its fields prefixed with \<open>func_\<close>. The field
  \<open>func_tree_src\<close> is the buffer the tree of the node was parsed from, which the source
  reaches through the node.
\<close>

record Func =
  func_lang :: string
  func_ctx_code :: bytes
  func_idx :: nat
  func_node :: node
  func_tree_src :: bytes

definition Func_code_bytes :: "Func \<Rightarrow> bytes" where
  "Func_code_bytes f = node_text (func_tree_src f) (func_node f)"

definition Func_code :: "Func \<Rightarrow> error + str" where
  "Func_code f = decode Ignore (Func_code_bytes f)"

text \<open>\<open>Func.__eq__\<close> against another function record (\<open>Inl\<close>) or a string (\<open>Inr\<close>).\<close>

definition Func_eq :: "Func \<Rightarrow> Func + str \<Rightarrow> error + bool" where
  "Func_eq self x =
     (case Func_code self of
        Inl e \<Rightarrow> Inl e
      | Inr func1 \<Rightarrow>
          (case (case x of Inl g \<Rightarrow> Func_code g | Inr s \<Rightarrow> Inr s) of
             Inl e \<Rightarrow> Inl e
           | Inr func2 \<Rightarrow>
               Inr (sub_spaces (remove_comments_regex func1) =
                    sub_spaces (remove_comments_regex func2))))"

text \<open>
  The body of a quoted string: escape pairs (a backslash and any character) and
  characters other than the backslash and the quote.
\<close>

fun string_body :: "nat \<Rightarrow> str \<Rightarrow> bool" where
  "string_body q [] = True"
| "string_body q [c] = (c \<noteq> BSL \<and> c \<noteq> q)"
| "string_body q (c # d # r) =
     (if c = BSL then string_body q r else c \<noteq> q \<and> string_body q (d # r))"

text \<open>
  A comment starts at the head of the text: \<open>//\<close>, or \<open>/*\<close> with a closing \<open>*/\<close> behind it.
  A string starts at the head of the text: a quote, a string body and the same quote.
\<close>

definition comment_starts :: "str \<Rightarrow> bool" where
  "comment_starts s =
     (startswith s [SLASH, SLASH] \<or>
      (startswith s [SLASH, STAR] \<and> contains [STAR, SLASH] (drop 2 s)))"

definition string_starts :: "str \<Rightarrow> bool" where
  "string_starts s =
     (\<exists>q body rest. (q = SQ \<or> q = DQ) \<and> s = q # body @ q # rest \<and> string_body q body)"

text \<open>
  Comment removal in the specification's words: \<open>//\<close>-to-end-of-line comments and
  \<open>/*...*/\<close> block comments are each replaced by a single space, single- and
  double-quoted string literals are returned unchanged, every other character is kept.
\<close>

inductive strips :: "str \<Rightarrow> str \<Rightarrow> bool" where
  strips_end: "strips [] []"
| strips_line:
    "NL \<notin> set body \<Longrightarrow> rest = [] \<or> hd rest = NL \<Longrightarrow> strips rest t \<Longrightarrow>
     strips (SLASH # SLASH # body @ rest) (SP # t)"
| strips_block:
    "\<not> contains [STAR, SLASH] (body @ [STAR]) \<Longrightarrow> strips rest t \<Longrightarrow>
     strips (SLASH # STAR # body @ STAR # SLASH # rest) (SP # t)"
| strips_string:
    "q = SQ \<or> q = DQ \<Longrightarrow> string_body q body \<Longrightarrow> strips rest t \<Longrightarrow>
     strips (q # body @ q # rest) (q # body @ q # t)"
| strips_char:
    "\<not> comment_starts (c # r) \<Longrightarrow> \<not> string_starts (c # r) \<Longrightarrow> strips r t \<Longrightarrow>
     strips (c # r) (c # t)"


text \<open>Removal of all whitespace.\<close>

definition no_space :: "str \<Rightarrow> str" where
  "no_space s = filter (\<lambda>c. \<not> is_space c) s"

text \<open>The text the regex stripper and the whitespace removal of the source leave.\<close>

definition normal_text :: "str \<Rightarrow> str" where
  "normal_text s = no_space (remove_comments_regex s)"

definition other_code :: "Func + str \<Rightarrow> error + str" where
  "other_code x = (case x of Inl g \<Rightarrow> Func_code g | Inr s \<Rightarrow> Inr s)"

subsection \<open>Sample function records\<close>

definition foo1_src :: bytes where
  "foo1_src = ''int foo(){return 1;}''"

definition foo1_node :: node where
  "foo1_node =
     Node ''function_definition'' 0 20
       [(Some ''type'', Node ''primitive_type'' 0 3 []),
        (Some ''declarator'', Node ''function_declarator'' 4 9
          [(Some ''declarator'', Node ''identifier'' 4 7 []),
           (Some ''parameters'', Node ''parameter_list'' 7 9
             [(None, Node ''('' 7 8 []),
              (None, Node '')'' 8 9 [])])]),
        (Some ''body'', Node ''compound_statement'' 9 20
          [(None, Node ''{'' 9 10 []),
           (None, Node ''return_statement'' 10 19
             [(None, Node ''return'' 10 16 []),
              (None, Node ''number_literal'' 17 18 []),
              (None, Node '';'' 18 19 [])]),
           (None, Node ''}'' 19 20 [])])]"

definition foo1_func :: Func where
  "foo1_func =
     \<lparr>func_lang = ''C'', func_ctx_code = foo1_src, func_idx = 0, func_node = foo1_node,
      func_tree_src = foo1_src\<rparr>"

definition foo2_src :: bytes where
  "foo2_src = ''int  foo ( ) {'' @ [CHR 0x0A] @ ''  return 1; // x'' @ [CHR 0x0A] @ ''}''"

definition foo2_node :: node where
  "foo2_node =
     Node ''function_definition'' 0 33
       [(Some ''type'', Node ''primitive_type'' 0 3 []),
        (Some ''declarator'', Node ''function_declarator'' 5 12
          [(Some ''declarator'', Node ''identifier'' 5 8 []),
           (Some ''parameters'', Node ''parameter_list'' 9 12
             [(None, Node ''('' 9 10 []),
              (None, Node '')'' 11 12 [])])]),
        (Some ''body'', Node ''compound_statement'' 13 33
          [(None, Node ''{'' 13 14 []),
           (None, Node ''return_statement'' 17 26
             [(None, Node ''return'' 17 23 []),
              (None, Node ''number_literal'' 24 25 []),
              (None, Node '';'' 25 26 [])]),
           (None, Node ''comment'' 27 31 []),
           (None, Node ''}'' 32 33 [])])]"

definition foo2_func :: Func where
  "foo2_func =
     \<lparr>func_lang = ''C'', func_ctx_code = foo2_src, func_idx = 0, func_node = foo2_node,
      func_tree_src = foo2_src\<rparr>"

definition latin_src :: bytes where
  "latin_src = ''int f(){return '' @ [CHR 0x27, CHR 0xFF, CHR 0x27] @ '';}''"

definition latin_node :: node where
  "latin_node =
     Node ''function_definition'' 0 20
       [(Some ''type'', Node ''primitive_type'' 0 3 []),
        (Some ''declarator'', Node ''function_declarator'' 4 7
          [(Some ''declarator'', Node ''identifier'' 4 5 []),
           (Some ''parameters'', Node ''parameter_list'' 5 7
             [(None, Node ''('' 5 6 []),
              (None, Node '')'' 6 7 [])])]),
        (Some ''body'', Node ''compound_statement'' 7 20
          [(None, Node ''{'' 7 8 []),
           (None, Node ''return_statement'' 8 19
             [(None, Node ''return'' 8 14 []),
              (None, Node ''char_literal'' 15 18 []),
              (None, Node '';'' 18 19 [])]),
           (None, Node ''}'' 19 20 [])])]"

definition latin_func :: Func where
  "latin_func =
     \<lparr>func_lang = ''C'', func_ctx_code = latin_src, func_idx = 0, func_node = latin_node,
      func_tree_src = latin_src\<rparr>"

definition repl_src :: bytes where
  "repl_src = ''int f(){return '' @ [CHR 0x22, CHR 0xEF, CHR 0xBF, CHR 0xBD, CHR 0x22] @ '';}''"

definition repl_node :: node where
  "repl_node =
     Node ''function_definition'' 0 22
       [(Some ''type'', Node ''primitive_type'' 0 3 []),
        (Some ''declarator'', Node ''function_declarator'' 4 7
          [(Some ''declarator'', Node ''identifier'' 4 5 []),
           (Some ''parameters'', Node ''parameter_list'' 5 7
             [(None, Node ''('' 5 6 []),
              (None, Node '')'' 6 7 [])])]),
        (Some ''body'', Node ''compound_statement'' 7 22
          [(None, Node ''{'' 7 8 []),
           (None, Node ''return_statement'' 8 21
             [(None, Node ''return'' 8 14 []),
              (None, Node ''string_literal'' 15 20 []),
              (None, Node '';'' 20 21 [])]),
           (None, Node ''}'' 21 22 [])])]"

definition repl_func :: Func where
  "repl_func =
     \<lparr>func_lang = ''C'', func_ctx_code = repl_src, func_idx = 0, func_node = repl_node,
      func_tree_src = repl_src\<rparr>"


definition foo1_text :: str where
  "foo1_text = ustr ''int foo(){return 1;}''"

definition foo2_text :: str where
  "foo2_text = ustr ''int  foo ( ) {'' @ [10] @ ustr ''  return 1; // x'' @ [10] @ ustr ''}''"

definition latin_text :: str where
  "latin_text = ustr ''int f(){return '' @ [39, 39] @ ustr '';}''"

definition repl_text :: str where
  "repl_text = ustr ''int f(){return '' @ [34, 65533, 34] @ ustr '';}''"

subsection \<open>Sample functions for the abstraction engine\<close>

text \<open>What a function definition at the top of a translation unit reads of its parent.\<close>

definition top_up :: "pinfo option" where
  "top_up = Some (''translation_unit'', False, ''translation_unit'')"

text \<open>A function with a qualifier, a parameter, a local, a field access, a label and a jump.\<close>

definition fa_src :: bytes where
  "fa_src = ''static int f(int a){int x=a;p->y=x;goto e;e:return x;}''"

definition fa_node :: node where
  "fa_node =
     Node ''function_definition'' 0 54
       [(None, Node ''storage_class_specifier'' 0 6
          [(None, Node ''static'' 0 6 [])]),
        (Some ''type'', Node ''primitive_type'' 7 10 []),
        (Some ''declarator'', Node ''function_declarator'' 11 19
          [(Some ''declarator'', Node ''identifier'' 11 12 []),
           (Some ''parameters'', Node ''parameter_list'' 12 19
             [(None, Node ''('' 12 13 []),
              (None, Node ''parameter_declaration'' 13 18
                [(Some ''type'', Node ''primitive_type'' 13 16 []),
                 (Some ''declarator'', Node ''identifier'' 17 18 [])]),
              (None, Node '')'' 18 19 [])])]),
        (Some ''body'', Node ''compound_statement'' 19 54
          [(None, Node ''{'' 19 20 []),
           (None, Node ''declaration'' 20 28
             [(Some ''type'', Node ''primitive_type'' 20 23 []),
              (Some ''declarator'', Node ''init_declarator'' 24 27
                [(Some ''declarator'', Node ''identifier'' 24 25 []),
                 (None, Node ''='' 25 26 []),
                 (Some ''value'', Node ''identifier'' 26 27 [])]),
              (None, Node '';'' 27 28 [])]),
           (None, Node ''expression_statement'' 28 35
             [(None, Node ''assignment_expression'' 28 34
                [(Some ''left'', Node ''field_expression'' 28 32
                   [(Some ''argument'', Node ''identifier'' 28 29 []),
                    (Some ''operator'', Node ''->'' 29 31 []),
                    (Some ''field'', Node ''field_identifier'' 31 32 [])]),
                 (Some ''operator'', Node ''='' 32 33 []),
                 (Some ''right'', Node ''identifier'' 33 34 [])]),
              (None, Node '';'' 34 35 [])]),
           (None, Node ''goto_statement'' 35 42
             [(None, Node ''goto'' 35 39 []),
              (Some ''label'', Node ''statement_identifier'' 40 41 []),
              (None, Node '';'' 41 42 [])]),
           (None, Node ''labeled_statement'' 42 53
             [(Some ''label'', Node ''statement_identifier'' 42 43 []),
              (None, Node '':'' 43 44 []),
              (None, Node ''return_statement'' 44 53
                [(None, Node ''return'' 44 50 []),
                 (None, Node ''identifier'' 51 52 []),
                 (None, Node '';'' 52 53 [])])]),
           (None, Node ''}'' 53 54 [])])]"

text \<open>A function that calls another one.\<close>

definition fb_src :: bytes where
  "fb_src = ''int g(){return h(1);}''"

definition fb_node :: node where
  "fb_node =
     Node ''function_definition'' 0 21
       [(Some ''type'', Node ''primitive_type'' 0 3 []),
        (Some ''declarator'', Node ''function_declarator'' 4 7
          [(Some ''declarator'', Node ''identifier'' 4 5 []),
           (Some ''parameters'', Node ''parameter_list'' 5 7
             [(None, Node ''('' 5 6 []),
              (None, Node '')'' 6 7 [])])]),
        (Some ''body'', Node ''compound_statement'' 7 21
          [(None, Node ''{'' 7 8 []),
           (None, Node ''return_statement'' 8 20
             [(None, Node ''return'' 8 14 []),
              (None, Node ''call_expression'' 15 19
                [(Some ''function'', Node ''identifier'' 15 16 []),
                 (Some ''arguments'', Node ''argument_list'' 16 19
                   [(None, Node ''('' 16 17 []),
                    (None, Node ''number_literal'' 17 18 []),
                    (None, Node '')'' 18 19 [])])]),
              (None, Node '';'' 19 20 [])]),
           (None, Node ''}'' 20 21 [])])]"

text \<open>A function that declares the local \<open>i\<close> twice, the second time in an inner block.\<close>

definition fc_src :: bytes where
  "fc_src = ''void k(){int i;{int i;i=0;}}''"

definition fc_node :: node where
  "fc_node =
     Node ''function_definition'' 0 28
       [(Some ''type'', Node ''primitive_type'' 0 4 []),
        (Some ''declarator'', Node ''function_declarator'' 5 8
          [(Some ''declarator'', Node ''identifier'' 5 6 []),
           (Some ''parameters'', Node ''parameter_list'' 6 8
             [(None, Node ''('' 6 7 []),
              (None, Node '')'' 7 8 [])])]),
        (Some ''body'', Node ''compound_statement'' 8 28
          [(None, Node ''{'' 8 9 []),
           (None, Node ''declaration'' 9 15
             [(Some ''type'', Node ''primitive_type'' 9 12 []),
              (Some ''declarator'', Node ''identifier'' 13 14 []),
              (None, Node '';'' 14 15 [])]),
           (None, Node ''compound_statement'' 15 27
             [(None, Node ''{'' 15 16 []),
              (None, Node ''declaration'' 16 22
                [(Some ''type'', Node ''primitive_type'' 16 19 []),
                 (Some ''declarator'', Node ''identifier'' 20 21 []),
                 (None, Node '';'' 21 22 [])]),
              (None, Node ''expression_statement'' 22 26
                [(None, Node ''assignment_expression'' 22 25
                   [(Some ''left'', Node ''identifier'' 22 23 []),
                    (Some ''operator'', Node ''='' 23 24 []),
                    (Some ''right'', Node ''number_literal'' 24 25 [])]),
                 (None, Node '';'' 25 26 [])]),
              (None, Node ''}'' 26 27 [])]),
           (None, Node ''}'' 27 28 [])])]"


text \<open>The leaf \<open>pn\<close> (a node with what it reads of its parent) is handled by branch \<open>b\<close>.\<close>

definition in_branch :: "branch \<Rightarrow> pinfo option \<times> node \<Rightarrow> bool" where
  "in_branch b pn =
     (case fst pn of None \<Rightarrow> False | Some p \<Rightarrow> classify p (ntype (snd pn)) = b)"


definition foo3_text :: str where
  "foo3_text = ustr ''int foo(){return 2;}''"

subsection \<open>Source text of a node, modulo whitespace and comments\<close>

text \<open>ASCII whitespace, as \<open>\s\<close> matches it on bytes, and a byte string without it.\<close>

definition is_bspace :: "char \<Rightarrow> bool" where
  "is_bspace c = (c \<in> set [CHR 0x20, CHR 0x09, CHR 0x0A, CHR 0x0B, CHR 0x0C, CHR 0x0D])"

definition squeeze :: "bytes \<Rightarrow> bytes" where
  "squeeze b = filter (\<lambda>c. \<not> is_bspace c) b"

definition blank :: "bytes \<Rightarrow> bool" where
  "blank b = list_all is_bspace b"


definition is_comment_node :: "node \<Rightarrow> bool" where
  "is_comment_node n = (ntype n \<in> set comment_types)"







subsection \<open>A source with a line comment and a two-line block comment\<close>

text \<open>
  The three declarations \<open>int a;\<close>, \<open>int b;\<close>, \<open>int c;\<close> on three lines, a line comment
  after the first and a block comment that spans a line break after the second; the tree
  is the one the C grammar builds for it, and \<open>cm_out\<close> is the expected stripped text.
\<close>

definition cm_src :: bytes where
  "cm_src = ''int a; // c'' @ [CHR 0x0A] @ ''int b; /* d'' @ [CHR 0x0A] @ '' e */ int c;'' @ [CHR 0x0A]"

definition cm_tree :: node where
  "cm_tree =
     Node ''translation_unit'' 0 36
       [(None, Node ''declaration'' 0 6
          [(Some ''type'', Node ''primitive_type'' 0 3 []),
           (Some ''declarator'', Node ''identifier'' 4 5 []),
           (None, Node '';'' 5 6 [])]),
        (None, Node ''comment'' 7 11 []),
        (None, Node ''declaration'' 12 18
          [(Some ''type'', Node ''primitive_type'' 12 15 []),
           (Some ''declarator'', Node ''identifier'' 16 17 []),
           (None, Node '';'' 17 18 [])]),
        (None, Node ''comment'' 19 29 []),
        (None, Node ''declaration'' 30 36
          [(Some ''type'', Node ''primitive_type'' 30 33 []),
           (Some ''declarator'', Node ''identifier'' 34 35 []),
           (None, Node '';'' 35 36 [])])]"

definition cm_out :: bytes where
  "cm_out = ''int a; '' @ [CHR 0x0A] @ ''int b; '' @ [CHR 0x0A] @ '' int c;'' @ [CHR 0x0A]"


subsection \<open>Spans in order, and ranges outside them\<close>

text \<open>
  A list of spans that lie one after the other between two bounds, and a byte range
  \<open>[a, b)\<close> that meets none of the spans of a list.
\<close>

fun spans_ordered :: "nat \<Rightarrow> (nat \<times> nat) list \<Rightarrow> nat \<Rightarrow> bool" where
  "spans_ordered lo [] hi = (lo \<le> hi)"
| "spans_ordered lo (c # cs) hi = (lo \<le> fst c \<and> fst c \<le> snd c \<and> spans_ordered (snd c) cs hi)"

definition outside :: "(nat \<times> nat) list \<Rightarrow> nat \<Rightarrow> nat \<Rightarrow> bool" where
  "outside cs a b = (\<forall>c\<in>set cs. b \<le> fst c \<or> snd c \<le> a)"

section \<open>Trees in document order\<close>

lemma wf_children_le: "wf_children lo hi cs \<Longrightarrow> lo \<le> hi"
proof (induction cs arbitrary: lo)
  case Nil then show ?case by simp
next
  case (Cons c cs)
  then have "end_byte (snd c) \<le> hi" by simp
  moreover from Cons.prems have "lo \<le> start_byte (snd c)" "wf_node (snd c)" by simp_all
  moreover have "start_byte (snd c) \<le> end_byte (snd c)"
    using \<open>wf_node (snd c)\<close> by (cases "snd c") simp
  ultimately show ?case by simp
qed

lemma wf_preorder:
  "wf_node n \<Longrightarrow>
     (\<forall>x\<in>set (preorder n). start_byte n \<le> start_byte x \<and> end_byte x \<le> end_byte n) \<and>
     sorted_wrt doc_order (preorder n)"
  "wf_children lo hi cs \<Longrightarrow>
     (\<forall>x\<in>set (preorder_list cs). lo \<le> start_byte x \<and> end_byte x \<le> hi) \<and>
     sorted_wrt doc_order (preorder_list cs)"
proof (induction n and cs arbitrary: and lo hi rule: preorder_preorder_list.induct)
  case (1 t s e cs)
  then have wc: "wf_children s e cs" and se: "s \<le> e" by simp_all
  from "1.IH"[OF wc] show ?case using se
    by (auto simp: doc_order_def descendants_def)
next
  case 2
  then show ?case by simp
next
  case (3 c cs)
  from "3.prems" have a: "lo \<le> start_byte (snd c)" and b: "wf_node (snd c)"
    and d: "wf_children (end_byte (snd c)) hi cs" by simp_all
  note ih1 = "3.IH"(1)[OF b] and ih2 = "3.IH"(2)[OF d]
  have e: "end_byte (snd c) \<le> hi" using wf_children_le[OF d] .
  have f: "start_byte (snd c) \<le> end_byte (snd c)" using b by (cases "snd c") simp
  have bounds: "\<forall>x\<in>set (preorder_list (c # cs)). lo \<le> start_byte x \<and> end_byte x \<le> hi"
    using ih1 ih2 a e f by fastforce
  have cross: "\<forall>x\<in>set (preorder (snd c)). \<forall>y\<in>set (preorder_list cs). doc_order x y"
    using ih1 ih2 unfolding doc_order_def by fastforce
  have "sorted_wrt doc_order (preorder_list (c # cs))"
    using ih1 ih2 cross by (simp add: sorted_wrt_append)
  with bounds show ?case by blast
qed

section \<open>Function locator: outermost captures\<close>

lemma c1_caps: "captures [''function_definition''] c1_tree = [c1_outer, c1_inner]"
  by (simp add: captures_def c1_tree_def c1_outer_def c1_inner_def)

lemma c1w_caps: "captures [''function_definition''] c1w_tree = [c1w_outer, c1_inner]"
  by (simp add: captures_def c1w_tree_def c1w_outer_def c1_inner_def)

text \<open>
  C1 does not hold of the code: the filter that is to remove a node inside another
  node compares both ends strictly. On the truncated source the nested definition of
  \<open>g\<close> ends at the same byte as the enclosing definition of \<open>f\<close>, so it is kept, and
  both definitions are returned although the range of \<open>g\<close> lies within the range of \<open>f\<close>.
\<close>

theorem capture_nested_counterexample:
  "capture_function_definitions c1_src c1_tree ''C'' = Inr [c1_outer, c1_inner] \<and>
   wf_node c1_tree \<and>
   start_byte c1_outer \<le> start_byte c1_inner \<and> end_byte c1_inner \<le> end_byte c1_outer \<and>
   start_byte c1_inner < end_byte c1_inner"
proof -
  have a: "\<not> inside c1_outer c1_outer" "\<not> inside c1_outer c1_inner"
     "\<not> inside c1_inner c1_outer" "\<not> inside c1_inner c1_inner"
    by (simp_all add: inside_def c1_outer_def c1_inner_def)
  have t1: "node_text c1_src c1_outer = ''void f() { void g() { }''"
    by (simp add: node_text_def slice_def c1_src_def c1_outer_def)
  have t2: "node_text c1_src c1_inner = ''void g() { }''"
    by (simp add: node_text_def slice_def c1_src_def c1_inner_def)
  have b: "\<not> startswith_any (node_text c1_src c1_outer) bad_leading"
    "\<not> startswith_any (node_text c1_src c1_inner) bad_leading"
    unfolding t1 t2 by (simp_all add: startswith_any_def startswith_def bad_leading_def)
  have "capture_function_definitions c1_src c1_tree ''C'' = Inr [c1_outer, c1_inner]"
    by (simp add: capture_function_definitions_def FUNCTION_DEFINITION_CAPTURES_def c1_caps a b)
  moreover have "wf_node c1_tree"
    by (simp add: c1_tree_def c1_outer_def c1_inner_def)
  ultimately show ?thesis by (simp add: c1_outer_def c1_inner_def)
qed

text \<open>
  What the filter does achieve: no returned node lies strictly inside another returned
  node; and on a well-formed tree in which every captured node below another captured
  node lies strictly inside it, the returned nodes are in document order with pairwise
  disjoint byte ranges.
\<close>

lemma capture_function_definitions_strict:
  assumes "capture_function_definitions src n lang = Inr res"
  shows "\<forall>a\<in>set res. \<forall>b\<in>set res. \<not> inside a b"
  using assms
  by (auto simp: capture_function_definitions_def Let_def list_ex_iff split: option.splits)

lemma capture_function_definitions_outermost:
  assumes res: "capture_function_definitions src n lang = Inr res"
    and wf: "wf_node n"
    and strict: "\<forall>a\<in>set (preorder n). \<forall>b\<in>set (descendants a).
                   (\<exists>c. map_of FUNCTION_DEFINITION_CAPTURES lang = Some c \<and>
                        ntype a \<in> set c \<and> ntype b \<in> set c) \<longrightarrow> inside b a"
  shows "(\<forall>a\<in>set res. \<forall>b\<in>set res. \<not> inside a b) \<and>
         sorted_wrt (\<lambda>a b. end_byte a \<le> start_byte b) res"
proof -
  from res obtain capture where cap: "map_of FUNCTION_DEFINITION_CAPTURES lang = Some capture"
    by (auto simp: capture_function_definitions_def split: option.splits)
  define caps where "caps = captures capture n"
  define node1 where "node1 = filter (\<lambda>n. \<not> list_ex (\<lambda>x. inside n x) caps) caps"
  have r: "res = filter (\<lambda>n. \<not> startswith_any (node_text src n) bad_leading) node1"
    using res cap by (simp add: capture_function_definitions_def caps_def node1_def Let_def)
  have sub: "set res \<subseteq> set node1" "set node1 \<subseteq> set caps" "set caps \<subseteq> set (preorder n)"
    by (auto simp: r node1_def caps_def captures_def)
  have ty: "ntype a \<in> set capture" if "a \<in> set res" for a
    using that sub by (auto simp: caps_def captures_def)
  have no: "\<not> inside a b" if "a \<in> set res" "b \<in> set res" for a b
  proof -
    from that sub have "a \<in> set node1" "b \<in> set caps" by auto
    then show ?thesis by (auto simp: node1_def list_ex_iff)
  qed
  have "sorted_wrt doc_order (preorder n)" using wf_preorder(1)[OF wf] by simp
  then have "sorted_wrt doc_order res"
    by (simp add: r node1_def caps_def captures_def sorted_wrt_filter)
  moreover have "end_byte a \<le> start_byte b"
    if "a \<in> set res" "b \<in> set res" "doc_order a b" for a b
  proof (rule ccontr)
    assume "\<not> end_byte a \<le> start_byte b"
    with that(3) have "b \<in> set (descendants a)" by (simp add: doc_order_def)
    moreover have "a \<in> set (preorder n)" using that(1) sub by auto
    ultimately have "inside b a" using strict cap ty[OF that(1)] ty[OF that(2)] by blast
    with no[OF that(2) that(1)] show False by simp
  qed
  ultimately have "sorted_wrt (\<lambda>a b. end_byte a \<le> start_byte b) res"
    by (rule sorted_wrt_mono_rel[rotated]) auto
  with no show ?thesis by blast
qed

lemma capture_function_definitions_outermost_sample:
  "capture_function_definitions c1w_src c1w_tree ''C'' = Inr [c1w_outer] \<and>
   wf_node c1w_tree \<and>
   \<not> inside c1w_outer c1w_outer \<and>
   sorted_wrt (\<lambda>a b. end_byte a \<le> start_byte b) [c1w_outer]"
proof -
  have a: "\<not> inside c1w_outer c1w_outer" "\<not> inside c1w_outer c1_inner"
     "inside c1_inner c1w_outer"
    by (simp_all add: inside_def c1w_outer_def c1_inner_def)
  have t1: "node_text c1w_src c1w_outer = ''void f() { void g() { } }''"
    by (simp add: node_text_def slice_def c1w_src_def c1w_outer_def)
  have b: "\<not> startswith_any (node_text c1w_src c1w_outer) bad_leading"
    unfolding t1 by (simp add: startswith_any_def startswith_def bad_leading_def)
  have r: "capture_function_definitions c1w_src c1w_tree ''C'' = Inr [c1w_outer]"
    by (simp add: capture_function_definitions_def FUNCTION_DEFINITION_CAPTURES_def c1w_caps a b)
  have w: "wf_node c1w_tree"
    by (simp add: c1w_tree_def c1w_outer_def c1_inner_def)
  have s: "\<forall>a\<in>set (preorder c1w_tree). \<forall>b\<in>set (descendants a).
             (\<exists>c. map_of FUNCTION_DEFINITION_CAPTURES ''C'' = Some c \<and>
                  ntype a \<in> set c \<and> ntype b \<in> set c) \<longrightarrow> inside b a"
    by (simp add: FUNCTION_DEFINITION_CAPTURES_def descendants_def inside_def
        c1w_tree_def c1w_outer_def c1_inner_def)
  from capture_function_definitions_outermost[OF r w s] r w show ?thesis by simp
qed

section \<open>Dispatch on the language tag\<close>

lemma capture_function_definitions_unsupported:
  "lang \<notin> {''C'', ''C++'', ''Java''} \<Longrightarrow>
   capture_function_definitions src n lang = Inl (ParseLangNotSupportError lang)"
  by (simp add: capture_function_definitions_def FUNCTION_DEFINITION_CAPTURES_def)

lemma function_scope_unsupported:
  "lang \<notin> {''C'', ''C++'', ''Java''} \<Longrightarrow>
   function_scope f g n lang = Inl (ParseLangNotSupportError lang)"
  by (simp add: function_scope_def)

text \<open>
  C4: the grammar lookup does not raise the dedicated error. For the unsupported tag
  \<open>Go\<close> the dictionary subscript of \<open>get_language\<close> raises \<open>KeyError\<close>, and so do
  \<open>get_parser\<close> and \<open>parse_ast\<close>, which call it.
\<close>

theorem get_language_unsupported:
  "get_language ''Go'' = Inl (KeyError ''Go'') \<and>
   get_parser ''Go'' = Inl (KeyError ''Go'') \<and>
   parse_ast ts s ''Go'' = Inl (KeyError ''Go'')"
  by (simp add: get_language_def get_parser_def parse_ast_def lang_mapping_def)

section \<open>Function model: decoding and equality\<close>

lemma utf8_decode_Ignore_total: "\<exists>s. utf8_decode Ignore bs = Inr s \<and> length s \<le> length bs"
proof (induction "Ignore" bs rule: utf8_decode.induct)
  case 1
  then show ?case by simp
next
  case (2 c r)
  obtain x n where st: "utf8_step c r = (x, n)" by (cases "utf8_step c r")
  have pos: "0 < n" using utf8_step_pos[OF st] .
  show ?case
  proof (cases x)
    case None
    from 2(1)[OF st[symmetric, unfolded None]]
    obtain s where "utf8_decode Ignore (drop n (c # r)) = Inr s" "length s \<le> length (drop n (c # r))"
      by blast
    then show ?thesis using st None pos by (auto simp: on_invalid_def)
  next
    case (Some cp)
    from 2(2)[OF st[symmetric, unfolded Some]]
    obtain s where "utf8_decode Ignore (drop n (c # r)) = Inr s" "length s \<le> length (drop n (c # r))"
      by blast
    then show ?thesis using st Some pos by (auto simp: decoded_def)
  qed
qed

lemma Func_code_total: "\<exists>s. Func_code f = Inr s \<and> length s \<le> length (Func_code_bytes f)"
  using utf8_decode_Ignore_total[of "map of_char (Func_code_bytes f)"]
  by (simp add: Func_code_def decode_def)

lemma sub_spaces_filter: "sub_spaces s = filter (\<lambda>c. \<not> is_space c) s"
proof (induction s rule: sub_spaces.induct)
  case 1
  then show ?case by simp
next
  case (2 c r)
  have "filter (\<lambda>c. \<not> is_space c) (dropWhile is_space r) = filter (\<lambda>c. \<not> is_space c) r"
    by (induction r) auto
  with 2 show ?case by simp
qed

lemma foo1_code: "Func_code foo1_func = Inr foo1_text"
  by (simp add: Func_code_def Func_code_bytes_def foo1_func_def foo1_node_def foo1_src_def
      node_text_def slice_def decode_def utf8_step_def decoded_def ustr_def foo1_text_def)

lemma foo2_code: "Func_code foo2_func = Inr foo2_text"
  by (simp add: Func_code_def Func_code_bytes_def foo2_func_def foo2_node_def foo2_src_def
      node_text_def slice_def decode_def utf8_step_def decoded_def ustr_def foo2_text_def)

lemmas rx_eval = match_at_def replacer_def startswith_def SLASH_def SQ_def DQ_def STAR_def
  NL_def SP_def BSL_def

lemma foo1_normal: "normal_text foo1_text = ustr ''intfoo(){return1;}''"
  by (simp add: normal_text_def no_space_def ustr_def rx_eval is_space_def foo1_text_def)

lemma foo2_normal: "normal_text foo2_text = ustr ''intfoo(){return1;}''"
  by (simp add: normal_text_def no_space_def ustr_def rx_eval is_space_def foo2_text_def)

lemma foo3_normal: "normal_text foo3_text = ustr ''intfoo(){return2;}''"
  by (simp add: normal_text_def no_space_def ustr_def rx_eval is_space_def foo3_text_def)

subsection \<open>The regex stripper removes exactly the comments\<close>

lemma find_close_Cons:
  "find_close (c # r) =
     (if c = STAR \<and> take 1 r = [SLASH] then Some 0 else map_option Suc (find_close r))"
  by (cases r) auto

lemma contains_close_Cons:
  "contains [STAR, SLASH] (c # r) = ((c = STAR \<and> take 1 r = [SLASH]) \<or> contains [STAR, SLASH] r)"
  by (cases r) (auto simp: startswith_def)

lemma find_close_None: "find_close r = None \<longleftrightarrow> \<not> contains [STAR, SLASH] r"
proof (induction r)
  case Nil
  then show ?case by simp
next
  case (Cons c r)
  then show ?case unfolding find_close_Cons contains_close_Cons by auto
qed

lemma find_close_first:
  "\<not> contains [STAR, SLASH] (body @ [STAR]) \<Longrightarrow>
   find_close (body @ STAR # SLASH # rest) = Some (length body)"
proof (induction body)
  case Nil
  then show ?case by simp
next
  case (Cons b body)
  from Cons.prems have a: "\<not> (b = STAR \<and> take 1 (body @ [STAR]) = [SLASH])"
    and b: "\<not> contains [STAR, SLASH] (body @ [STAR])"
    unfolding append_Cons contains_close_Cons by auto
  from a have "\<not> (b = STAR \<and> take 1 (body @ STAR # SLASH # rest) = [SLASH])"
    by (cases body) (auto simp: STAR_def SLASH_def)
  with Cons.IH[OF b] show ?case unfolding append_Cons find_close_Cons by simp
qed

lemma find_close_Some:
  "find_close r = Some k \<Longrightarrow>
   \<exists>body rest. r = body @ STAR # SLASH # rest \<and> length body = k \<and>
     \<not> contains [STAR, SLASH] (body @ [STAR])"
proof (induction r arbitrary: k)
  case Nil
  then show ?case by simp
next
  case (Cons c r)
  show ?case
  proof (cases "c = STAR \<and> take 1 r = [SLASH]")
    case True
    then obtain rest where "r = SLASH # rest" by (cases r) auto
    moreover from True Cons.prems have "k = 0" unfolding find_close_Cons by simp
    ultimately show ?thesis using True
      by (intro exI[of _ "[]"] exI[of _ rest]) (simp add: startswith_def STAR_def SLASH_def)
  next
    case False
    with Cons.prems obtain k' where k': "find_close r = Some k'" "k = Suc k'"
      unfolding find_close_Cons by auto
    from Cons.IH[OF k'(1)] obtain body rest where
      br: "r = body @ STAR # SLASH # rest" "length body = k'"
      "\<not> contains [STAR, SLASH] (body @ [STAR])" by blast
    have "\<not> (c = STAR \<and> take 1 (body @ [STAR]) = [SLASH])"
      using False br(1) by (cases body) (auto simp: STAR_def SLASH_def)
    with br(3) have "\<not> contains [STAR, SLASH] ((c # body) @ [STAR])"
      unfolding append_Cons contains_close_Cons by simp
    with br k' show ?thesis
      by (intro exI[of _ "c # body"] exI[of _ rest]) simp
  qed
qed


lemma str_end_Cons:
  "q \<noteq> BSL \<Longrightarrow>
   str_end q (c # r) =
     (if c = BSL then (case r of [] \<Rightarrow> None | d # r' \<Rightarrow> map_option (\<lambda>n. n + 2) (str_end q r'))
      else if c = q then Some 1 else map_option Suc (str_end q r))"
  by (cases r) auto

lemma string_body_Cons:
  "q \<noteq> BSL \<Longrightarrow>
   string_body q (c # r) =
     (if c = BSL then (case r of [] \<Rightarrow> False | d # r' \<Rightarrow> string_body q r')
      else c \<noteq> q \<and> string_body q r)"
  by (cases r) auto

lemma str_end_closing:
  "string_body q body \<Longrightarrow> q \<noteq> BSL \<Longrightarrow>
   str_end q (body @ q # rest) = Some (length body + 1)"
proof (induction q body rule: string_body.induct)
  case (1 q)
  then show ?case by (simp add: str_end_Cons)
next
  case (2 q c)
  then show ?case by (simp add: str_end_Cons)
next
  case (3 q c d r)
  show ?case
  proof (cases "c = BSL")
    case True
    with 3 show ?thesis by simp
  next
    case False
    with "3.prems" have "c \<noteq> q" "string_body q (d # r)" by simp_all
    with 3(2)[OF False] "3.prems"(2) False show ?thesis
      using str_end_Cons[OF "3.prems"(2), of c "(d # r) @ q # rest"] by simp
  qed
qed

lemma str_end_Some:
  "str_end q r = Some k \<Longrightarrow> q \<noteq> BSL \<Longrightarrow>
   \<exists>body rest. r = body @ q # rest \<and> string_body q body \<and> k = length body + 1"
proof (induction q r arbitrary: k rule: str_end.induct)
  case (1 q)
  then show ?case by simp
next
  case (2 q c)
  then have "c = q" "k = 1" by (simp_all split: if_splits)
  then show ?case by (intro exI[of _ "[]"]) simp
next
  case (3 q c d r)
  show ?case
  proof (cases "c = BSL")
    case True
    with "3.prems" obtain k' where k': "str_end q r = Some k'" "k = k' + 2" by auto
    from 3(1)[OF True k'(1) "3.prems"(2)] obtain body rest where
      "r = body @ q # rest" "string_body q body" "k' = length body + 1" by blast
    with True k' show ?thesis
      by (intro exI[of _ "c # d # body"] exI[of _ rest]) simp
  next
    case False
    note nb = this
    show ?thesis
    proof (cases "c = q")
      case True
      with nb "3.prems" have "k = 1" by simp
      with True show ?thesis by (intro exI[of _ "[]"] exI[of _ "d # r"]) simp
    next
      case False
      with nb "3.prems" obtain k' where k': "str_end q (d # r) = Some k'" "k = Suc k'" by auto
      from 3(2)[OF nb False k'(1) "3.prems"(2)] obtain body rest where
        br: "d # r = body @ q # rest" "string_body q body" "k' = length body + 1" by blast
      have "string_body q (c # body)"
        using br(2) nb False by (simp add: string_body_Cons[OF "3.prems"(2)])
      with br k' show ?thesis
        by (intro exI[of _ "c # body"] exI[of _ rest]) simp
    qed
  qed
qed

lemma quote_consts: "SQ \<noteq> BSL" "DQ \<noteq> BSL" "SQ \<noteq> SLASH" "DQ \<noteq> SLASH" "SLASH \<noteq> STAR"
  by (simp_all add: SQ_def DQ_def BSL_def SLASH_def STAR_def)

lemma match_at_None_iff:
  "match_at s = None \<longleftrightarrow> \<not> comment_starts s \<and> \<not> string_starts s"
proof (cases s)
  case Nil
  then show ?thesis by (simp add: match_at_def comment_starts_def string_starts_def startswith_def)
next
  case (Cons c r)
  consider "c = SLASH" | "c = SQ \<or> c = DQ" | "c \<noteq> SLASH" "c \<noteq> SQ" "c \<noteq> DQ" by blast
  then show ?thesis
  proof cases
    case 1
    then have ns: "\<not> string_starts s"
      using Cons quote_consts by (auto simp: string_starts_def)
    show ?thesis
    proof (cases r)
      case Nil
      with 1 Cons ns show ?thesis
        by (simp add: match_at_def comment_starts_def startswith_def)
    next
      case (Cons d r')
      with 1 \<open>s = c # r\<close> ns show ?thesis
        using find_close_None[of r'] quote_consts(5)
        by (auto simp: match_at_def comment_starts_def startswith_def)
    qed
  next
    case 2
    then have q: "c \<noteq> BSL" "c \<noteq> SLASH" using quote_consts by auto
    have nc: "\<not> comment_starts s" using Cons q by (simp add: comment_starts_def startswith_def)
    have "str_end c r = None \<longleftrightarrow> \<not> string_starts s"
    proof
      assume n: "str_end c r = None"
      show "\<not> string_starts s"
      proof
        assume "string_starts s"
        then obtain body rest where "r = body @ c # rest" "string_body c body"
          using Cons by (auto simp: string_starts_def)
        with str_end_closing[OF this(2) q(1), of rest] n show False by simp
      qed
    next
      assume ns: "\<not> string_starts s"
      show "str_end c r = None"
      proof (rule ccontr)
        assume "str_end c r \<noteq> None"
        then obtain k where "str_end c r = Some k" by auto
        from str_end_Some[OF this q(1)] obtain body rest where
          "r = body @ c # rest" "string_body c body" by blast
        with 2 Cons have "string_starts s" unfolding string_starts_def by blast
        with ns show False ..
      qed
    qed
    with 2 q nc Cons show ?thesis by (auto simp: match_at_def)
  next
    case 3
    then have "\<not> comment_starts s" "\<not> string_starts s"
      using Cons by (auto simp: comment_starts_def string_starts_def startswith_def)
    with 3 Cons show ?thesis by (simp add: match_at_def)
  qed
qed


lemma split_block:
  "drop (length body + 4) (a # b # body @ c # d # rest) = rest"
  "take (length body + 4) (a # b # body @ c # d # rest) = a # b # body @ [c, d]"
proof -
  have "a # b # body @ c # d # rest = (a # b # body @ [c, d]) @ rest" by simp
  moreover have "length (a # b # body @ [c, d]) = length body + 4" by simp
  ultimately show "drop (length body + 4) (a # b # body @ c # d # rest) = rest"
    "take (length body + 4) (a # b # body @ c # d # rest) = a # b # body @ [c, d]"
    by (metis append_eq_conv_conj)+
qed

lemma split_string:
  "drop (length body + 2) (a # body @ c # rest) = rest"
  "take (length body + 2) (a # body @ c # rest) = a # body @ [c]"
proof -
  have "a # body @ c # rest = (a # body @ [c]) @ rest" by simp
  moreover have "length (a # body @ [c]) = length body + 2" by simp
  ultimately show "drop (length body + 2) (a # body @ c # rest) = rest"
    "take (length body + 2) (a # body @ c # rest) = a # body @ [c]"
    by (metis append_eq_conv_conj)+
qed

lemma takeWhile_line:
  assumes "NL \<notin> set body" "rest = [] \<or> hd rest = NL"
  shows "takeWhile (\<lambda>x. x \<noteq> NL) (body @ rest) = body"
proof -
  have "takeWhile (\<lambda>x. x \<noteq> NL) rest = []" using assms(2) by (cases rest) auto
  with assms(1) show ?thesis by (simp add: takeWhile_append)
qed

lemma rcr_match:
  "s \<noteq> [] \<Longrightarrow> match_at s = Some n \<Longrightarrow>
   remove_comments_regex s = replacer (take n s) @ remove_comments_regex (drop n s)"
  by (cases s) simp_all

lemma rcr_no_match:
  "match_at (c # r) = None \<Longrightarrow> remove_comments_regex (c # r) = c # remove_comments_regex r"
  by simp

lemma strips_sound: "strips s t \<Longrightarrow> t = remove_comments_regex s"
proof (induction rule: strips.induct)
  case strips_end
  then show ?case by simp
next
  case (strips_line body rest t)
  let ?s = "SLASH # SLASH # body @ rest"
  have m: "match_at ?s = Some (2 + length body)"
    using takeWhile_line[OF strips_line(1,2)] by (simp add: match_at_def)
  have "replacer (take (2 + length body) ?s) = [SP]"
    by (simp add: replacer_def startswith_def)
  with rcr_match[OF _ m] strips_line.IH show ?case by simp
next
  case (strips_block body rest t)
  let ?s = "SLASH # STAR # body @ STAR # SLASH # rest"
  have m: "match_at ?s = Some (length body + 4)"
    using find_close_first[OF strips_block(1), of rest] quote_consts(5)
    by (simp add: match_at_def)
  have "replacer (take (length body + 4) ?s) = [SP]"
    by (simp add: split_block replacer_def startswith_def)
  moreover have "drop (length body + 4) ?s = rest" by (rule split_block)
  ultimately show ?case using rcr_match[OF _ m] strips_block.IH by simp
next
  case (strips_string q body rest t)
  let ?s = "q # body @ q # rest"
  from strips_string(1) have q: "q \<noteq> BSL" "q \<noteq> SLASH" using quote_consts by auto
  have m: "match_at ?s = Some (length body + 2)"
    using str_end_closing[OF strips_string(2) q(1), of rest] strips_string(1) q
    by (simp add: match_at_def)
  have "take (length body + 2) ?s = q # body @ [q]" by (rule split_string)
  then have "replacer (take (length body + 2) ?s) = q # body @ [q]"
    using q by (simp add: replacer_def startswith_def)
  moreover have "drop (length body + 2) ?s = rest" by (rule split_string)
  ultimately show ?case using rcr_match[OF _ m] strips_string.IH by simp
next
  case (strips_char c r t)
  then have "match_at (c # r) = None" by (simp add: match_at_None_iff)
  with strips_char.IH show ?case by simp
qed

lemma strips_complete: "strips s (remove_comments_regex s)"
proof (induction s rule: remove_comments_regex.induct)
  case 1
  then show ?case by (simp add: strips_end)
next
  case (2 c r)
  show ?case
  proof (cases "match_at (c # r)")
    case None
    then have "\<not> comment_starts (c # r)" "\<not> string_starts (c # r)"
      by (simp_all add: match_at_None_iff)
    with 2(1)[OF None] None show ?thesis by (simp add: strips_char)
  next
    case (Some n)
    note ih = 2(2)[OF Some]
    have eq: "remove_comments_regex (c # r) =
        replacer (take n (c # r)) @ remove_comments_regex (drop n (c # r))"
      using Some by simp
    consider "c = SLASH" | "c = SQ \<or> c = DQ" using Some
      by (auto simp: match_at_def split: if_splits)
    then show ?thesis
    proof cases
      case 1
      with Some obtain d r' where r: "r = d # r'" by (cases r) (auto simp: match_at_def)
      show ?thesis
      proof (cases "d = SLASH")
        case True
        let ?b = "takeWhile (\<lambda>x. x \<noteq> NL) r'" and ?rest = "dropWhile (\<lambda>x. x \<noteq> NL) r'"
        from Some 1 r True have n: "n = 2 + length ?b" by (simp add: match_at_def)
        have s: "c # r = SLASH # SLASH # ?b @ ?rest" using 1 r True by simp
        have d: "drop n (c # r) = ?rest" unfolding n using 1 r True
          by (simp add: dropWhile_eq_drop)
        have a: "NL \<notin> set ?b" by (auto dest: set_takeWhileD)
        have b: "?rest = [] \<or> hd ?rest = NL" using hd_dropWhile[of "\<lambda>x. x \<noteq> NL" r'] by auto
        have "replacer (take n (c # r)) = [SP]"
          using 1 Some match_at_pos[OF Some] by (cases n) (simp_all add: replacer_def startswith_def)
        with eq d have "remove_comments_regex (c # r) = SP # remove_comments_regex ?rest" by simp
        moreover have "strips (SLASH # SLASH # ?b @ ?rest) (SP # remove_comments_regex ?rest)"
          using strips_line[OF a b] ih d by simp
        ultimately show ?thesis using s by simp
      next
        case False
        with Some 1 r obtain k where k: "d = STAR" "find_close r' = Some k" "n = k + 4"
          by (auto simp: match_at_def split: if_splits)
        from find_close_Some[OF k(2)] obtain body rest where
          br: "r' = body @ STAR # SLASH # rest" "length body = k"
          "\<not> contains [STAR, SLASH] (body @ [STAR])" by blast
        have s: "c # r = SLASH # STAR # body @ STAR # SLASH # rest" using 1 r k br by simp
        have n: "n = length body + 4" using k br by simp
        have d: "drop n (c # r) = rest" unfolding s n by (rule split_block)
        have "replacer (take n (c # r)) = [SP]"
          unfolding s n by (simp add: split_block replacer_def startswith_def)
        with eq d have "remove_comments_regex (c # r) = SP # remove_comments_regex rest" by simp
        moreover have "strips (SLASH # STAR # body @ STAR # SLASH # rest)
            (SP # remove_comments_regex rest)"
          using strips_block[OF br(3)] ih d by simp
        ultimately show ?thesis using s by simp
      qed
    next
      case 2
      then have q: "c \<noteq> BSL" "c \<noteq> SLASH" using quote_consts by auto
      with Some 2 obtain k where k: "str_end c r = Some k" "n = Suc k"
        by (auto simp: match_at_def)
      from str_end_Some[OF k(1) q(1)] obtain body rest where
        br: "r = body @ c # rest" "string_body c body" "k = length body + 1" by blast
      have s: "c # r = c # body @ c # rest" using br by simp
      have n: "n = length body + 2" using k br by simp
      have d: "drop n (c # r) = rest" unfolding n by (subst s) (rule split_string)
      have "take n (c # r) = c # body @ [c]" unfolding n by (subst s) (rule split_string)
      then have "replacer (take n (c # r)) = c # body @ [c]"
        using q by (simp add: replacer_def startswith_def)
      with eq d have "remove_comments_regex (c # r) = c # body @ c # remove_comments_regex rest"
        by simp
      moreover have "strips (c # body @ c # rest) (c # body @ c # remove_comments_regex rest)"
        using strips_string[OF 2 br(2)] ih d by simp
      ultimately show ?thesis using s by simp
    qed
  qed
qed

lemma strips_iff: "strips s t \<longleftrightarrow> t = remove_comments_regex s"
  using strips_sound strips_complete by blast


lemma Func_eq_strips:
  assumes "Func_code f = Inr c1" "other_code x = Inr c2" "strips c1 t1" "strips c2 t2"
  shows "Func_eq f x = Inr (no_space t1 = no_space t2)"
  using assms
  by (simp add: Func_eq_def other_code_def no_space_def sub_spaces_filter strips_iff)

text \<open>
  C8: the two code texts always exist and have their comments removed; whenever
  \<open>t1\<close> and \<open>t2\<close> are the two code texts with the comments removed, \<open>Func.__eq__\<close>
  against a function record or a string returns whether \<open>t1\<close> and \<open>t2\<close> are identical
  after removal of all whitespace. The record with code \<open>int foo(){return 1;}\<close> equals
  the record, and the string, with the spaced and commented text, and differs from
  the text that returns 2.
\<close>

theorem Func_eq_stripped:
  "(\<exists>c1 c2 t1 t2. Func_code f = Inr c1 \<and> other_code x = Inr c2 \<and> strips c1 t1 \<and> strips c2 t2) \<and>
   (\<forall>c1 c2 t1 t2. Func_code f = Inr c1 \<and> other_code x = Inr c2 \<and> strips c1 t1 \<and> strips c2 t2
       \<longrightarrow> Func_eq f x = Inr (no_space t1 = no_space t2)) \<and>
   Func_eq foo1_func (Inl foo2_func) = Inr True \<and>
   Func_eq foo1_func (Inr foo2_text) = Inr True \<and>
   Func_eq foo1_func (Inr foo3_text) = Inr False"
proof -
  obtain c1 where c1: "Func_code f = Inr c1" using Func_code_total by blast
  obtain c2 where c2: "other_code x = Inr c2"
    using Func_code_total by (cases x) (auto simp: other_code_def)
  have ex: "\<exists>c1 c2 t1 t2. Func_code f = Inr c1 \<and> other_code x = Inr c2 \<and> strips c1 t1 \<and> strips c2 t2"
    using c1 c2 strips_complete by blast
  have norm: "Func_eq g y = Inr (normal_text d1 = normal_text d2)"
    if "Func_code g = Inr d1" "other_code y = Inr d2" for g y d1 d2
    using Func_eq_strips[OF that strips_complete strips_complete]
    by (simp add: normal_text_def)
  have "Func_eq foo1_func (Inl foo2_func) = Inr True"
    using norm[of foo1_func foo1_text "Inl foo2_func" foo2_text]
    by (simp add: foo1_code foo2_code other_code_def foo1_normal foo2_normal)
  moreover have "Func_eq foo1_func (Inr foo2_text) = Inr True"
    using norm[of foo1_func foo1_text "Inr foo2_text" foo2_text]
    by (simp add: foo1_code other_code_def foo1_normal foo2_normal)
  moreover have "Func_eq foo1_func (Inr foo3_text) = Inr False"
    using norm[of foo1_func foo1_text "Inr foo3_text" foo3_text]
    by (simp add: foo1_code other_code_def foo1_normal foo3_normal ustr_def)
  ultimately show ?thesis using ex Func_eq_strips by blast
qed

theorem Func_eq_stripped_witness:
  "Func_code foo1_func = Inr foo1_text \<and> other_code (Inl foo2_func) = Inr foo2_text \<and>
   strips foo1_text (remove_comments_regex foo1_text) \<and>
   strips foo2_text (remove_comments_regex foo2_text) \<and>
   no_space (remove_comments_regex foo1_text) = no_space (remove_comments_regex foo2_text) \<and>
   Func_eq foo1_func (Inl foo2_func) = Inr True"
proof -
  have a: "Func_code foo1_func = Inr foo1_text" by (rule foo1_code)
  have b: "other_code (Inl foo2_func) = Inr foo2_text" by (simp add: other_code_def foo2_code)
  have c: "strips foo1_text (remove_comments_regex foo1_text)" by (rule strips_complete)
  have d: "strips foo2_text (remove_comments_regex foo2_text)" by (rule strips_complete)
  have e: "no_space (remove_comments_regex foo1_text) = no_space (remove_comments_regex foo2_text)"
    using foo1_normal foo2_normal by (simp add: normal_text_def)
  from Func_eq_stripped[of foo1_func "Inl foo2_func"] a b c d e show ?thesis by blast
qed

subsection \<open>Lossy decoding\<close>

lemma utf8_two_bytes:
  fixes c c2 :: nat
  assumes "c < 224" "c2 < 192"
  shows "c * 64 + c2 - (192 * 64 + 128) \<noteq> 65533"
proof -
  from assms have "c * 64 + c2 \<le> 223 * 64 + 191" by linarith
  then show ?thesis by linarith
qed

lemma utf8_three_bytes:
  fixes c c2 c3 :: nat
  assumes "224 \<le> c" "c < 240" "128 \<le> c2" "c2 < 192" "128 \<le> c3" "c3 < 192"
    and e: "c * 4096 + c2 * 64 + c3 - (224 * 4096 + 128 * 64 + 128) = 65533"
  shows "c = 239 \<and> c2 = 191 \<and> c3 = 189"
proof -
  from e have e': "c * 4096 + c2 * 64 + c3 = 991357" by simp
  have "c = 239"
  proof (rule ccontr)
    assume "c \<noteq> 239"
    with assms have "c \<le> 238" by simp
    with assms e' show False by simp
  qed
  with e' have e2: "c2 * 64 + c3 = 12413" by simp
  have "c2 = 191"
  proof (rule ccontr)
    assume "c2 \<noteq> 191"
    with assms have "c2 \<le> 190" by simp
    with assms e2 show False by simp
  qed
  with e2 \<open>c = 239\<close> show ?thesis by simp
qed

lemma utf8_four_bytes:
  fixes c c2 c3 c4 :: nat
  assumes "240 \<le> c" "128 \<le> c2" "128 \<le> c3" "128 \<le> c4"
    and k: "\<not> (if c2 < 144 then c = 240 else c = 244)"
    and e: "c * 262144 + c2 * 4096 + c3 * 64 + c4 -
               (240 * 262144 + 128 * 4096 + 128 * 64 + 128) = 65533"
  shows False
proof -
  from e have e': "c * 262144 + c2 * 4096 + c3 * 64 + c4 = 63512701" by simp
  show False
  proof (cases "c = 240")
    case True
    with k have "144 \<le> c2" by (simp split: if_splits)
    with True assms e' show False by simp
  next
    case False
    with assms have "241 \<le> c" by simp
    with assms e' show False by simp
  qed
qed

lemma utf8_step_replacement:
  assumes "utf8_step c r = (Some 65533, n)"
  shows "c = 239 \<and> n = 3 \<and> (\<exists>r3. r = 191 # 189 # r3)"
proof -
  consider "c < 128" | "128 \<le> c" "c < 194" | "194 \<le> c" "c < 224" | "224 \<le> c" "c < 240"
    | "240 \<le> c" "c < 245" | "245 \<le> c" by linarith
  then show ?thesis
  proof cases
    case 1 with assms show ?thesis by (simp add: utf8_step_def)
  next
    case 2 with assms show ?thesis by (simp add: utf8_step_def)
  next
    case 3
    then have u: "utf8_step c r = (case r of [] \<Rightarrow> (None, 1)
         | c2 # r2 \<Rightarrow> if is_cont c2 then (Some (c * 64 + c2 - (192 * 64 + 128)), 2) else (None, 1))"
      by (simp add: utf8_step_def)
    show ?thesis
    proof (cases r)
      case Nil with u assms show ?thesis by simp
    next
      case (Cons c2 r2)
      with u assms have k: "is_cont c2" "c * 64 + c2 - (192 * 64 + 128) = 65533"
        by (simp_all split: if_splits)
      from k(1) have "c2 < 192" by (simp add: is_cont_def)
      from utf8_two_bytes[OF 3(2) this] k(2) have False by simp
      then show ?thesis ..
    qed
  next
    case 4
    then have u: "utf8_step c r = (case r of [] \<Rightarrow> (None, 1)
         | c2 # r2 \<Rightarrow>
             if \<not> is_cont c2 \<or> (if c2 < 160 then c = 224 else c = 237) then (None, 1)
             else
               (case r2 of
                  [] \<Rightarrow> (None, 2)
                | c3 # r3 \<Rightarrow>
                    if is_cont c3
                    then (Some (c * 4096 + c2 * 64 + c3 - (224 * 4096 + 128 * 64 + 128)), 3)
                    else (None, 2)))"
      by (simp add: utf8_step_def)
    show ?thesis
    proof (cases r)
      case Nil with u assms show ?thesis by simp
    next
      case (Cons c2 r2)
      note r = this
      show ?thesis
      proof (cases r2)
        case Nil with u r assms show ?thesis by (simp split: if_splits)
      next
        case (Cons c3 r3)
        with u r assms have k: "is_cont c2" "is_cont c3" "n = 3"
          "c * 4096 + c2 * 64 + c3 - (224 * 4096 + 128 * 64 + 128) = 65533"
          by (simp_all split: if_splits)
        have "c = 239 \<and> c2 = 191 \<and> c3 = 189"
          using utf8_three_bytes[OF 4 _ _ _ _ k(4)] k(1,2) by (simp add: is_cont_def)
        with k r Cons show ?thesis by simp
      qed
    qed
  next
    case 5
    then have u: "utf8_step c r = (case r of
           [] \<Rightarrow> (None, 1)
         | c2 # r2 \<Rightarrow>
             if \<not> is_cont c2 \<or> (if c2 < 144 then c = 240 else c = 244) then (None, 1)
             else
               (case r2 of
                  [] \<Rightarrow> (None, 2)
                | c3 # r3 \<Rightarrow>
                    if \<not> is_cont c3 then (None, 2)
                    else
                      (case r3 of
                         [] \<Rightarrow> (None, 3)
                       | c4 # r4 \<Rightarrow>
                           if is_cont c4
                           then (Some (c * 262144 + c2 * 4096 + c3 * 64 + c4 -
                                       (240 * 262144 + 128 * 4096 + 128 * 64 + 128)), 4)
                           else (None, 3))))"
      by (simp add: utf8_step_def)
    show ?thesis
    proof (cases r)
      case Nil with u assms show ?thesis by simp
    next
      case (Cons c2 r2)
      note r = this
      show ?thesis
      proof (cases r2)
        case Nil with u r assms show ?thesis by (simp split: if_splits)
      next
        case (Cons c3 r3)
        note r2 = this
        show ?thesis
        proof (cases r3)
          case Nil with u r r2 assms show ?thesis by (simp split: if_splits)
        next
          case (Cons c4 r4)
          with u r r2 assms have k: "is_cont c2" "is_cont c3" "is_cont c4"
            "\<not> (if c2 < 144 then c = 240 else c = 244)"
            "c * 262144 + c2 * 4096 + c3 * 64 + c4 -
               (240 * 262144 + 128 * 4096 + 128 * 64 + 128) = 65533"
            by (simp_all split: if_splits)
          have False
            using utf8_four_bytes[OF 5(1) _ _ _ k(4) k(5)] k(1,2,3) by (simp add: is_cont_def)
          then show ?thesis ..
        qed
      qed
    qed
  next
    case 6 with assms show ?thesis by (simp add: utf8_step_def)
  qed
qed

lemma contains_Cons: "contains p r \<Longrightarrow> contains p (c # r)"
  by simp

lemma contains_drop: "contains p (drop n bs) \<Longrightarrow> contains p bs"
proof (induction bs arbitrary: n)
  case Nil then show ?case by simp
next
  case (Cons b bs)
  show ?case
  proof (cases n)
    case 0 with Cons.prems show ?thesis by simp
  next
    case (Suc m)
    with Cons.prems have "contains p (drop m bs)" by simp
    then have "contains p bs" by (rule Cons.IH)
    then show ?thesis by simp
  qed
qed

lemma utf8_decode_replacement:
  "utf8_decode Ignore bs = Inr s \<Longrightarrow> 65533 \<in> set s \<Longrightarrow> contains [239, 191, 189 :: nat] bs"
proof (induction "Ignore" bs arbitrary: s rule: utf8_decode.induct)
  case 1
  then show ?case by simp
next
  case (2 c r)
  obtain x n where st: "utf8_step c r = (x, n)" by (cases "utf8_step c r")
  show ?case
  proof (cases x)
    case None
    from "2.prems" st None have "utf8_decode Ignore (drop n (c # r)) = Inr s"
      by (simp add: on_invalid_def)
    from 2(1)[OF st[symmetric] None this "2.prems"(2)]
    show ?thesis by (rule contains_drop)
  next
    case (Some cp)
    from "2.prems" st Some obtain s' where
      s': "utf8_decode Ignore (drop n (c # r)) = Inr s'" "s = cp # s'"
      by (auto simp: decoded_def split: sum.splits)
    show ?thesis
    proof (cases "cp = 65533")
      case True
      with st Some utf8_step_replacement[of c r n] obtain r3 where "c = 239" "r = 191 # 189 # r3"
        by auto
      then show ?thesis by (simp add: startswith_def)
    next
      case False
      with "2.prems"(2) s' have "65533 \<in> set s'" by simp
      from 2(2)[OF st[symmetric] Some s'(1) this]
      show ?thesis by (rule contains_drop)
    qed
  qed
qed

lemma utf8_decode_Strict_Ignore:
  "utf8_decode Strict bs = Inr s \<Longrightarrow> utf8_decode Ignore bs = Inr s"
proof (induction "Strict" bs arbitrary: s rule: utf8_decode.induct)
  case 1
  then show ?case by simp
next
  case (2 c r)
  obtain x n where st: "utf8_step c r = (x, n)" by (cases "utf8_step c r")
  show ?case
  proof (cases x)
    case None
    with "2.prems" st show ?thesis by (simp add: on_invalid_def)
  next
    case (Some cp)
    from "2.prems" st Some obtain s' where
      s': "utf8_decode Strict (drop n (c # r)) = Inr s'" "s = cp # s'"
      by (auto simp: decoded_def split: sum.splits)
    from 2(2)[OF st[symmetric] Some s'(1)] s'(2) st Some
    show ?thesis by (simp add: decoded_def)
  qed
qed

lemmas code_eval = Func_code_def Func_code_bytes_def node_text_def slice_def decode_def
  utf8_step_def decoded_def on_invalid_def is_cont_def ustr_def

text \<open>
  C9, as the specification states it, fails in its second half: the source decodes with
  \<open>errors="ignore"\<close>. The function text \<open>int f(){return 'X';}\<close> with the single byte
  \<open>0xFF\<close> for \<open>X\<close> is invalid UTF-8; its code is read without error, the byte is dropped
  and no replacement character stands in for it.
\<close>

theorem Func_code_replace_counterexample:
  "decode Strict (Func_code_bytes latin_func) = Inl UnicodeDecodeError \<and>
   Func_code latin_func = Inr latin_text \<and>
   65533 \<notin> set latin_text \<and>
   length latin_text < length (Func_code_bytes latin_func)"
  by (simp add: code_eval latin_func_def latin_node_def latin_src_def latin_text_def)

text \<open>
  C9, amended: reading the code of a function record never raises, for any bytes;
  invalid sequences are dropped, so the text is no longer than the bytes and a
  replacement character U+FFFD occurs in it only where the bytes hold its encoding
  \<open>EF BF BD\<close>; bytes that are valid UTF-8 decode to exactly their text.
\<close>

theorem Func_code_ignore:
  "(\<exists>s. Func_code f = Inr s \<and> length s \<le> length (Func_code_bytes f) \<and>
        (65533 \<in> set s \<longrightarrow> contains [239, 191, 189 :: nat] (map of_char (Func_code_bytes f)))) \<and>
   (\<forall>s. decode Strict (Func_code_bytes f) = Inr s \<longrightarrow> Func_code f = Inr s)"
proof -
  obtain s where s: "Func_code f = Inr s" "length s \<le> length (Func_code_bytes f)"
    using Func_code_total by blast
  have "65533 \<in> set s \<longrightarrow> contains [239, 191, 189 :: nat] (map of_char (Func_code_bytes f))"
    using s(1) utf8_decode_replacement by (auto simp: Func_code_def decode_def)
  moreover have "\<forall>s. decode Strict (Func_code_bytes f) = Inr s \<longrightarrow> Func_code f = Inr s"
    using utf8_decode_Strict_Ignore by (simp add: Func_code_def decode_def)
  ultimately show ?thesis using s by blast
qed

theorem Func_code_ignore_witness:
  "Func_code repl_func = Inr repl_text \<and> 65533 \<in> set repl_text \<and>
   contains [239, 191, 189 :: nat] (map of_char (Func_code_bytes repl_func)) \<and>
   decode Strict (Func_code_bytes repl_func) = Inr repl_text"
proof -
  have a: "Func_code repl_func = Inr repl_text"
    by (simp add: code_eval repl_func_def repl_node_def repl_src_def repl_text_def)
  have b: "65533 \<in> set repl_text" by (simp add: repl_text_def)
  have c: "decode Strict (Func_code_bytes repl_func) = Inr repl_text"
    by (simp add: code_eval repl_func_def repl_node_def repl_src_def repl_text_def)
  from Func_code_ignore[of repl_func] a b c show ?thesis by auto
qed


section \<open>Abstraction engine\<close>

lemmas abst_eval = abstract_func_clike_def top_up_def is_inner_def is_leaf_def
  atomic_types_def chain_root_def abstract_node_def classify_def alloc_emit_def on_fname_def on_fparam_def on_lvar_def on_field_def on_label_def_def on_goto_label_def on_vtype_def on_literal_def on_func_call_def on_ident_def default_policy_def keep_policy_def
  init_state_def alloc_number_def emit_def node_text_def slice_def ABST_WITH_NUM_def
  ABST_AS_TYPE_def ABST_NON_SYS_def dropped_types_def startswith_def show_nat.simps
  digit_def Let_def

text \<open>
  C5 does not hold of the code: the field and label branches test \<open>abstract_lvar\<close> where
  the type branch tests its own selector. With the field and label selectors set to
  numbered placeholders and \<open>abstract_lvar\<close> off, the generic \<open>FIELD\<close> and \<open>LABEL\<close> are
  emitted; with the two selectors set to generic placeholders and \<open>abstract_lvar\<close>
  numbered, the numbered \<open>FIELD0\<close>, \<open>LABEL0\<close>, \<open>LABEL1\<close> are emitted.
\<close>

theorem field_label_follow_lvar:
  "abstract_func_clike
     (keep_policy\<lparr>abstract_field := ABST_WITH_NUM, abstract_label := ABST_WITH_NUM\<rparr>)
     {} fa_src top_up fa_node =
   Inr [''int'', ''f'', ''('', ''int'', ''a'', '')'', ''{'', ''int'', ''x'', ''='', ''a'', '';'',
        ''p'', ''->'', ''FIELD'', ''='', ''x'', '';'', ''goto'', ''LABEL'', '';'', ''LABEL'', '':'',
        ''return'', ''x'', '';'', ''}''] \<and>
   abstract_func_clike
     (keep_policy\<lparr>abstract_field := ABST_AS_TYPE, abstract_label := ABST_AS_TYPE,
                   abstract_lvar := ABST_WITH_NUM\<rparr>)
     {} fa_src top_up fa_node =
   Inr [''int'', ''f'', ''('', ''int'', ''a'', '')'', ''{'', ''int'', ''LVAR0'', ''='', ''a'', '';'',
        ''p'', ''->'', ''FIELD0'', ''='', ''LVAR0'', '';'', ''goto'', ''LABEL0'', '';'', ''LABEL1'',
        '':'', ''return'', ''LVAR0'', '';'', ''}'']"
  by (simp add: abst_eval fa_node_def fa_src_def)

text \<open>
  C10, as the specification states it, fails: a policy with the numbered bit set for
  called functions returns a token sequence for a function that calls nothing.
\<close>

theorem func_call_numbered_counterexample:
  "and (abstract_func_call (default_policy\<lparr>abstract_func_call := ABST_WITH_NUM\<rparr>))
       ABST_WITH_NUM \<noteq> 0 \<and>
   abstract_func_clike (default_policy\<lparr>abstract_func_call := ABST_WITH_NUM\<rparr>)
     {} fc_src top_up fc_node =
   Inr [''void'', ''FNAME'', ''('', '')'', ''{'', ''int'', ''LVAR0'', '';'', ''{'', ''int'', ''LVAR1'',
        '';'', ''LVAR1'', ''='', ''0'', '';'', ''}'', ''}'']"
  by (simp add: abst_eval fc_node_def fc_src_def)



lemma abstract_node_Inl:
  assumes "abstract_node pol S src st pn = Inl e"
  shows "(e = AttributeError \<and> fst pn = None) \<or>
         (e = NotImplementedError \<and> (\<exists>p. fst pn = Some p \<and> classify p (ntype (snd pn)) = Func_call) \<and>
          and (abstract_func_call pol) ABST_WITH_NUM \<noteq> 0)"
  using assms
  by (auto simp: abstract_node_def Let_def on_func_call_def split: option.splits branch.splits if_splits)

lemma abstract_node_call_target:
  assumes "fst pn = Some p" "classify p (ntype (snd pn)) = Func_call"
    "and (abstract_func_call pol) ABST_WITH_NUM \<noteq> 0"
  shows "abstract_node pol S src st pn = Inl NotImplementedError"
proof -
  from assms(3) have nz: "abstract_func_call pol \<noteq> 0" by auto
  with assms show ?thesis by (simp add: abstract_node_def Let_def on_func_call_def)
qed

lemma traverse_parent:
  "pn \<in> set (traverse d r p n) \<Longrightarrow> fst pn = p \<or> fst pn \<noteq> None"
  "pn \<in> set (traverse_children d r pt ptop seen cs) \<Longrightarrow> fst pn \<noteq> None"
proof (induction d r p n and d r pt ptop seen cs rule: traverse_traverse_children.induct)
  case (1 descend ret p t s e cs)
  then show ?case by (auto split: if_splits)
next
  case (2 descend ret ptype ptop seen)
  then show ?case by simp
next
  case (3 descend ret ptype ptop seen c cs)
  then show ?case by auto
qed

lemma traverse_has_parent:
  "up \<noteq> None \<Longrightarrow> \<forall>pn\<in>set (traverse d r up n). fst pn \<noteq> None"
  using traverse_parent(1) by metis

lemma abstract_loop_call:
  assumes bit: "and (abstract_func_call pol) ABST_WITH_NUM \<noteq> 0"
  shows "\<forall>pn\<in>set ls. fst pn \<noteq> None \<Longrightarrow>
         (if list_ex (in_branch Func_call) ls
          then abstract_loop pol S src st ls = Inl NotImplementedError
          else (\<exists>st'. abstract_loop pol S src st ls = Inr st'))"
proof (induction ls arbitrary: st)
  case Nil
  then show ?case by simp
next
  case (Cons pn ls)
  from Cons.prems obtain p where p: "fst pn = Some p" by auto
  show ?case
  proof (cases "in_branch Func_call pn")
    case True
    with p have "classify p (ntype (snd pn)) = Func_call" by (simp add: in_branch_def)
    from abstract_node_call_target[OF p this bit] True show ?thesis by simp
  next
    case False
    have "\<exists>st1. abstract_node pol S src st pn = Inr st1"
    proof (cases "abstract_node pol S src st pn")
      case (Inl e)
      from abstract_node_Inl[OF Inl] p False show ?thesis by (auto simp: in_branch_def)
    next
      case (Inr st1) then show ?thesis by blast
    qed
    then obtain st1 where st1: "abstract_node pol S src st pn = Inr st1" ..
    from Cons.IH[of st1] Cons.prems False st1 show ?thesis by simp
  qed
qed

text \<open>
  C10, amended: with the numbered bit set in \<open>abstract_func_call\<close>, abstracting a node
  that has a parent raises \<open>NotImplementedError\<close> exactly when the traversal meets a leaf
  handled by the called-function branch; otherwise a token sequence is returned.
\<close>

theorem func_call_numbered_raises:
  assumes "and (abstract_func_call pol) ABST_WITH_NUM \<noteq> 0" and "up \<noteq> None"
  shows "if list_ex (in_branch Func_call) (traverse is_inner is_leaf up func)
         then abstract_func_clike pol S src up func = Inl NotImplementedError
         else (\<exists>toks. abstract_func_clike pol S src up func = Inr toks)"
  using abstract_loop_call[OF assms(1) traverse_has_parent[OF assms(2)],
      of is_inner is_leaf func S src init_state]
  by (auto simp: abstract_func_clike_def split: if_splits)

lemmas trav_eval = top_up_def is_inner_def is_leaf_def atomic_types_def chain_root_def

theorem func_call_numbered_raises_witness:
  "list_ex (in_branch Func_call) (traverse is_inner is_leaf top_up fb_node) \<and>
   abstract_func_clike (default_policy\<lparr>abstract_func_call := ABST_WITH_NUM\<rparr>)
     {} fb_src top_up fb_node = Inl NotImplementedError"
proof -
  have a: "and (abstract_func_call (default_policy\<lparr>abstract_func_call := ABST_WITH_NUM\<rparr>))
             ABST_WITH_NUM \<noteq> 0"
    by (simp add: ABST_WITH_NUM_def)
  have b: "top_up \<noteq> None" by (simp add: top_up_def)
  have c: "list_ex (in_branch Func_call) (traverse is_inner is_leaf top_up fb_node)"
    by (simp add: trav_eval fb_node_def in_branch_def classify_def dropped_types_def startswith_def)
  from func_call_numbered_raises[OF a b, of fb_node "{}" fb_src] c show ?thesis by simp
qed


subsection \<open>The policy that keeps everything\<close>

lemma abstract_node_keep:
  assumes "fst pn = Some p" "lvar_map st = Map.empty" "\<not> in_branch Goto_label pn"
  shows "abstract_node keep_policy S src st pn =
         Inr (if in_branch Dropped pn then st else emit st (node_text src (snd pn)))"
  using assms
  by (cases "classify p (ntype (snd pn))")
     (simp_all add: abstract_node_def in_branch_def keep_policy_def Let_def on_fname_def
        on_fparam_def on_lvar_def on_field_def on_label_def_def on_vtype_def on_literal_def
        on_func_call_def on_ident_def)

lemma abstract_loop_keep:
  "\<forall>pn\<in>set ls. fst pn \<noteq> None \<and> \<not> in_branch Goto_label pn \<Longrightarrow> lvar_map st = Map.empty \<Longrightarrow>
   abstract_loop keep_policy S src st ls =
   Inr (st\<lparr>outputs := outputs st @
              map (\<lambda>pn. node_text src (snd pn)) (filter (\<lambda>pn. \<not> in_branch Dropped pn) ls)\<rparr>)"
proof (induction ls arbitrary: st)
  case Nil
  then show ?case by simp
next
  case (Cons pn ls)
  from Cons.prems obtain p where p: "fst pn = Some p" and g: "\<not> in_branch Goto_label pn" by auto
  note step = abstract_node_keep[OF p Cons.prems(2) g, of S src]
  show ?case
  proof (cases "in_branch Dropped pn")
    case True
    with step Cons.IH[of st] Cons.prems show ?thesis by simp
  next
    case False
    with step Cons.IH[of "emit st (node_text src (snd pn))"] Cons.prems show ?thesis
      by (simp add: emit_def)
  qed
qed

text \<open>
  With every selector set to keep, on a node that has a parent and whose leaves hold
  no jump target, the token sequence is the texts of the leaf-like nodes in document
  order without the leaves of the dropping branch.
\<close>

lemma keep_policy_tokens:
  assumes "up \<noteq> None"
    and "\<not> list_ex (in_branch Goto_label) (traverse is_inner is_leaf up func)"
  shows "abstract_func_clike keep_policy S src up func =
         Inr (map (\<lambda>pn. node_text src (snd pn))
                (filter (\<lambda>pn. \<not> in_branch Dropped pn) (traverse is_inner is_leaf up func)))"
proof -
  have "\<forall>pn\<in>set (traverse is_inner is_leaf up func). fst pn \<noteq> None \<and> \<not> in_branch Goto_label pn"
    using traverse_has_parent[OF assms(1)] assms(2) by (auto simp: list_ex_iff)
  from abstract_loop_keep[OF this, of init_state S src] show ?thesis
    by (simp add: abstract_func_clike_def init_state_def)
qed

lemma keep_policy_tokens_sample:
  "abstract_func_clike keep_policy {} fb_src top_up fb_node =
     Inr [''int'', ''g'', ''('', '')'', ''{'', ''return'', ''h'', ''('', ''1'', '')'', '';'', ''}'']"
proof -
  have a: "top_up \<noteq> None" by (simp add: top_up_def)
  have l: "traverse is_inner is_leaf top_up fb_node =
     [(Some (''function_definition'', False, ''function_definition''), Node ''primitive_type'' 0 3 []),
      (Some (''function_declarator'', True, ''function_definition''), Node ''identifier'' 4 5 []),
      (Some (''parameter_list'', False, ''parameter_list''), Node ''('' 5 6 []),
      (Some (''parameter_list'', False, ''parameter_list''), Node '')'' 6 7 []),
      (Some (''compound_statement'', False, ''compound_statement''), Node ''{'' 7 8 []),
      (Some (''return_statement'', False, ''return_statement''), Node ''return'' 8 14 []),
      (Some (''call_expression'', False, ''call_expression''), Node ''identifier'' 15 16 []),
      (Some (''argument_list'', False, ''argument_list''), Node ''('' 16 17 []),
      (Some (''argument_list'', False, ''argument_list''), Node ''number_literal'' 17 18 []),
      (Some (''argument_list'', False, ''argument_list''), Node '')'' 18 19 []),
      (Some (''return_statement'', False, ''return_statement''), Node '';'' 19 20 []),
      (Some (''compound_statement'', False, ''compound_statement''), Node ''}'' 20 21 [])]"
    by (simp add: trav_eval fb_node_def)
  have b: "\<not> list_ex (in_branch Goto_label) (traverse is_inner is_leaf top_up fb_node)"
    unfolding l by (simp add: in_branch_def classify_def)
  from keep_policy_tokens[OF a b, of "{}" fb_src] show ?thesis
    unfolding l
    by (simp add: in_branch_def classify_def dropped_types_def startswith_def node_text_def
        slice_def fb_src_def)
qed

subsection \<open>Tokens and source text\<close>

lemma slice_drop: "a \<le> b \<Longrightarrow> slice xs a b @ drop b xs = drop a xs"
proof -
  assume "a \<le> b"
  then have "drop b xs = drop (b - a) (drop a xs)" by simp
  then show ?thesis unfolding slice_def by (metis append_take_drop_id)
qed

lemma slice_split: "a \<le> b \<Longrightarrow> b \<le> c \<Longrightarrow> slice xs a b @ slice xs b c = slice xs a c"
proof -
  assume ab: "a \<le> b" and bc: "b \<le> c"
  have "c - a = (b - a) + (c - b)" using ab bc by simp
  then have "take (c - a) (drop a xs) =
      take (b - a) (drop a xs) @ take (c - b) (drop (b - a) (drop a xs))"
    by (simp only: take_add)
  then show ?thesis using ab by (simp add: slice_def)
qed




lemma blank_Nil [simp]: "blank []"
  by (simp add: blank_def)

lemma slice_empty [simp]: "slice xs a a = []"
  by (simp add: slice_def)

lemma squeeze_append [simp]: "squeeze (a @ b) = squeeze a @ squeeze b"
  by (simp add: squeeze_def)


lemma squeeze_fill [simp]: "squeeze (replicate k LF) = []"
  by (induction k) (auto simp: squeeze_def is_bspace_def LF_def)
















section \<open>The tree-accurate comment stripper keeps line numbers\<close>

lemma spans_ordered_le: "spans_ordered lo cs hi \<Longrightarrow> lo \<le> hi"
proof (induction cs arbitrary: lo)
  case Nil
  then show ?case by simp
next
  case (Cons c cs)
  from Cons.prems have "lo \<le> fst c" "fst c \<le> snd c" "spans_ordered (snd c) cs hi" by simp_all
  with Cons.IH[of "snd c"] show ?case by linarith
qed

lemma count_list_replicate: "count_list (replicate k x) x = k"
  by (induction k) auto

lemma rebuild_append: "rebuild code (a @ b) l cs = a @ rebuild code b l cs"
  by (induction cs arbitrary: b l) auto

lemma rebuild_count:
  "spans_ordered l cs (length code) \<Longrightarrow>
   count_list (rebuild code ok l cs) LF = count_list ok LF + count_list (drop l code) LF"
proof (induction cs arbitrary: ok l)
  case Nil
  then show ?case by simp
next
  case (Cons c cs)
  from Cons.prems have a: "l \<le> fst c" "fst c \<le> snd c" "spans_ordered (snd c) cs (length code)" by simp_all
  have "drop l code = slice code l (fst c) @ slice code (fst c) (snd c) @ drop (snd c) code"
    using a by (simp add: slice_drop)
  then have "count_list (drop l code) LF =
       count_list (slice code l (fst c)) LF + count_list (slice code (fst c) (snd c)) LF +
       count_list (drop (snd c) code) LF"
    by simp
  with Cons.IH[OF a(3)] show ?case by (simp add: count_list_replicate)
qed

lemma rebuild_range:
  "spans_ordered l cs (length code) \<Longrightarrow> l \<le> a \<Longrightarrow> a \<le> b \<Longrightarrow> b \<le> length code \<Longrightarrow>
   outside cs a b \<Longrightarrow>
   \<exists>q. slice (rebuild code ok l cs) q (q + (b - a)) = slice code a b \<and>
       count_list (take q (rebuild code ok l cs)) LF =
         count_list ok LF + count_list (slice code l a) LF"
proof (induction cs arbitrary: ok l)
  case Nil
  let ?q = "length ok + (a - l)"
  have "drop ?q (ok @ drop l code) = drop a code" using Nil.prems by simp
  then have "slice (rebuild code ok l []) ?q (?q + (b - a)) = slice code a b"
    by (simp add: slice_def)
  moreover have "take ?q (ok @ drop l code) = ok @ slice code l a"
    by (simp add: slice_def)
  ultimately show ?case by auto
next
  case (Cons c cs)
  from Cons.prems have k: "l \<le> fst c" "fst c \<le> snd c" "spans_ordered (snd c) cs (length code)"
    by simp_all
  from spans_ordered_le[OF k(3)] have e: "snd c \<le> length code" .
  let ?fill = "replicate (count_list (slice code (fst c) (snd c)) LF) LF"
  let ?ok = "ok @ slice code l (fst c) @ ?fill"
  have r: "rebuild code ok l (c # cs) = ok @ slice code l (fst c) @ rebuild code ?fill (snd c) cs"
    using rebuild_append[of code "ok @ slice code l (fst c)" ?fill "snd c" cs] by simp
  from Cons.prems(5) have dis: "b \<le> fst c \<or> snd c \<le> a" and o: "outside cs a b"
    by (simp_all add: outside_def)
  from dis show ?case
  proof
    assume bc: "b \<le> fst c"
    let ?q = "length ok + (a - l)"
    let ?rest = "rebuild code ?fill (snd c) cs"
    have len: "length (slice code l (fst c)) = fst c - l"
      using k e by (simp add: slice_def)
    have d: "drop ?q (rebuild code ok l (c # cs)) = slice code a (fst c) @ ?rest"
    proof -
      have "drop (a - l) (slice code l (fst c)) = slice code a (fst c)"
        using Cons.prems(2) bc Cons.prems(3) by (simp add: slice_def drop_take)
      moreover have "a - l \<le> length (slice code l (fst c))"
        using len bc Cons.prems(3) by simp
      ultimately show ?thesis unfolding r by simp
    qed
    have "take (b - a) (slice code a (fst c) @ ?rest) = slice code a b"
    proof -
      have "b - a \<le> length (slice code a (fst c))"
        using bc k e by (simp add: slice_def)
      then have "take (b - a) (slice code a (fst c) @ ?rest) = take (b - a) (slice code a (fst c))"
        by simp
      also have "\<dots> = slice code a b" using bc by (simp add: slice_def min_def)
      finally show ?thesis .
    qed
    with d have s1: "slice (rebuild code ok l (c # cs)) ?q (?q + (b - a)) = slice code a b"
      by (simp add: slice_def)
    have "take ?q (rebuild code ok l (c # cs)) = ok @ take (a - l) (slice code l (fst c))"
      unfolding r using len bc Cons.prems(3) by simp
    also have "take (a - l) (slice code l (fst c)) = slice code l a"
      using bc Cons.prems(3) by (simp add: slice_def min_def)
    finally have "count_list (take ?q (rebuild code ok l (c # cs))) LF =
        count_list ok LF + count_list (slice code l a) LF" by simp
    with s1 show ?thesis by blast
  next
    assume ca: "snd c \<le> a"
    from Cons.IH[OF k(3) ca Cons.prems(3) Cons.prems(4) o, of ?ok]
    obtain q where q: "slice (rebuild code ?ok (snd c) cs) q (q + (b - a)) = slice code a b"
      "count_list (take q (rebuild code ?ok (snd c) cs)) LF =
         count_list ?ok LF + count_list (slice code (snd c) a) LF"
      by blast
    have "slice code l a = slice code l (fst c) @ slice code (fst c) (snd c) @ slice code (snd c) a"
      using k ca by (simp add: slice_split)
    then have "count_list (slice code l a) LF =
        count_list (slice code l (fst c)) LF + count_list (slice code (fst c) (snd c)) LF +
        count_list (slice code (snd c) a) LF" by simp
    with q show ?thesis by (auto simp: count_list_replicate)
  qed
qed

lemma spans_ordered_sorted:
  "sorted_wrt (\<lambda>a b. snd a \<le> fst b) sp \<Longrightarrow>
   \<forall>c\<in>set sp. lo \<le> fst c \<and> fst c \<le> snd c \<and> snd c \<le> hi \<Longrightarrow> lo \<le> hi \<Longrightarrow>
   spans_ordered lo sp hi"
proof (induction sp arbitrary: lo)
  case Nil
  then show ?case by simp
next
  case (Cons c sp)
  from Cons.prems have a: "lo \<le> fst c" "fst c \<le> snd c" "snd c \<le> hi" by simp_all
  have "\<forall>d\<in>set sp. snd c \<le> fst d \<and> fst d \<le> snd d \<and> snd d \<le> hi"
    using Cons.prems by auto
  moreover have "sorted_wrt (\<lambda>a b. snd a \<le> fst b) sp" using Cons.prems(1) by simp
  ultimately have "spans_ordered (snd c) sp hi" using Cons.IH a(3) by blast
  with a show ?case by simp
qed

lemma comment_spans_ordered:
  assumes wf: "wf_node root" and bound: "end_byte root \<le> n"
    and leaf: "\<forall>x\<in>set (preorder root). is_comment_node x \<longrightarrow> children x = []"
  shows "spans_ordered 0 (comment_spans root) n"
proof -
  let ?P = "\<lambda>x. ntype x \<in> set comment_types \<and> start_byte x < end_byte x"
  let ?C = "filter ?P (preorder root)"
  from wf_preorder(1)[OF wf] have
    b: "\<forall>x\<in>set (preorder root). start_byte root \<le> start_byte x \<and> end_byte x \<le> end_byte root"
    and s: "sorted_wrt doc_order (preorder root)" by simp_all
  from s have "sorted_wrt doc_order ?C" by (rule sorted_wrt_filter)
  moreover have "end_byte a \<le> start_byte b" if "a \<in> set ?C" "b \<in> set ?C" "doc_order a b" for a b
  proof -
    from that(1) leaf have "children a = []" by (auto simp: is_comment_node_def)
    with that(3) show ?thesis by (simp add: doc_order_def descendants_def)
  qed
  ultimately have "sorted_wrt (\<lambda>a b. end_byte a \<le> start_byte b) ?C"
    by (rule sorted_wrt_mono_rel[rotated]) auto
  then have "sorted_wrt (\<lambda>a b. snd a \<le> fst b) (comment_spans root)"
    by (simp add: comment_spans_def sorted_wrt_map)
  moreover have "\<forall>c\<in>set (comment_spans root). 0 \<le> fst c \<and> fst c \<le> snd c \<and> snd c \<le> n"
    using b bound by (auto simp: comment_spans_def)
  ultimately show ?thesis by (rule spans_ordered_sorted) simp
qed

text \<open>
  C6. The tree-accurate comment stripper keeps the line structure. Let the parser return a
  tree for the input (the language is one of the three with a grammar) that is as the
  parser builds trees: children lie inside their parent, one after the other, the root
  lies inside the input, and a comment node has no children. Then \<open>remove_comments_ast\<close>
  returns an output with exactly as many newline characters as the input, and every byte
  range \<open>[a, b)\<close> of the input that meets no comment span is found verbatim in the output, at
  a position preceded by as many newline characters as in the input, that is, on the same
  line.
\<close>

theorem remove_comments_ast_lines:
  assumes parse: "parse_ast ts code lang = Inr root"
    and wf: "wf_node root" and bound: "end_byte root \<le> length code"
    and leaf: "\<forall>x\<in>set (preorder root). is_comment_node x \<longrightarrow> children x = []"
  shows "\<exists>out. remove_comments_ast ts code lang = Inr out \<and>
           count_list out LF = count_list code LF \<and>
           (\<forall>a b. a \<le> b \<and> b \<le> length code \<and> outside (comment_spans root) a b \<longrightarrow>
              (\<exists>q. slice out q (q + (b - a)) = slice code a b \<and>
                   count_list (take q out) LF = count_list (take a code) LF))"
proof -
  let ?out = "rebuild code [] 0 (comment_spans root)"
  have r: "remove_comments_ast ts code lang = Inr ?out"
    using parse by (simp add: remove_comments_ast_def)
  have c: "spans_ordered 0 (comment_spans root) (length code)"
    by (rule comment_spans_ordered[OF wf bound leaf])
  have n: "count_list ?out LF = count_list code LF"
    using rebuild_count[OF c, of "[]"] by simp
  have "\<exists>q. slice ?out q (q + (b - a)) = slice code a b \<and>
           count_list (take q ?out) LF = count_list (take a code) LF"
    if "a \<le> b" "b \<le> length code" "outside (comment_spans root) a b" for a b
    using rebuild_range[OF c _ that, of "[]"] by (simp add: slice_def)
  with r n show ?thesis by blast
qed

theorem remove_comments_ast_lines_witness:
  "remove_comments_ast (\<lambda>g s. cm_tree) cm_src ''C'' = Inr cm_out \<and>
   count_list cm_out LF = count_list cm_src LF \<and>
   outside (comment_spans cm_tree) 12 18 \<and>
   (\<exists>q. slice cm_out q (q + (18 - 12)) = slice cm_src 12 18 \<and>
        count_list (take q cm_out) LF = count_list (take 12 cm_src) LF)"
proof -
  have p: "parse_ast (\<lambda>g s. cm_tree) cm_src ''C'' = Inr cm_tree"
    by (simp add: parse_ast_def get_parser_def get_language_def lang_mapping_def)
  have w: "wf_node cm_tree" by (simp add: cm_tree_def)
  have b: "end_byte cm_tree \<le> length cm_src" by (simp add: cm_tree_def cm_src_def)
  have l: "\<forall>x\<in>set (preorder cm_tree). is_comment_node x \<longrightarrow> children x = []"
    by (simp add: cm_tree_def is_comment_node_def comment_types_def)
  have sp: "comment_spans cm_tree = [(7, 11), (19, 29)]"
    by (simp add: comment_spans_def comment_types_def cm_tree_def)
  have rb: "rebuild cm_src [] 0 [(7, 11), (19, 29)] = cm_out"
    by (simp add: cm_src_def cm_out_def slice_def LF_def)
  have r: "remove_comments_ast (\<lambda>g s. cm_tree) cm_src ''C'' = Inr cm_out"
    by (simp add: remove_comments_ast_def p sp rb del: rebuild.simps)
  have o: "outside (comment_spans cm_tree) 12 18" by (simp add: sp outside_def)
  have len: "(18::nat) \<le> length cm_src" by (simp add: cm_src_def)
  from remove_comments_ast_lines[OF p w b l] obtain out where
    out: "remove_comments_ast (\<lambda>g s. cm_tree) cm_src ''C'' = Inr out"
    and cnt: "count_list out LF = count_list cm_src LF"
    and rng: "\<forall>a b. a \<le> b \<and> b \<le> length cm_src \<and> outside (comment_spans cm_tree) a b \<longrightarrow>
              (\<exists>q. slice out q (q + (b - a)) = slice cm_src a b \<and>
                   count_list (take q out) LF = count_list (take a cm_src) LF)"
    by blast
  from out r have eq: "out = cm_out" by simp
  have "\<exists>q. slice out q (q + (18 - 12)) = slice cm_src 12 18 \<and>
        count_list (take q out) LF = count_list (take 12 cm_src) LF"
    by (rule rng[rule_format, of 12 18]) (simp add: len o)
  with r o cnt eq show ?thesis by simp
qed

end
